theory Spec2Isabelle
  imports Main
begin

section \<open>Strings and shared tags\<close>

text \<open>
  Words are compared after \<^verbatim>\<open>w.toUpperCase().trim()\<close>. Strings are modelled as
  ASCII character lists: \<open>toUpperCase\<close> maps the letters a..z to A..Z and leaves every
  other character alone, \<open>trim\<close> removes leading and trailing ASCII white space
  (tab, line feed, vertical tab, form feed, carriage return, space).
\<close>

definition toUpperCase_char :: "char \<Rightarrow> char" where
  "toUpperCase_char c =
     (case map_of (zip ''abcdefghijklmnopqrstuvwxyz'' ''ABCDEFGHIJKLMNOPQRSTUVWXYZ'') c of
        Some u \<Rightarrow> u
      | None \<Rightarrow> c)"

definition toUpperCase :: "string \<Rightarrow> string" where
  "toUpperCase w = map toUpperCase_char w"

definition isWhiteSpace :: "char \<Rightarrow> bool" where
  "isWhiteSpace c = (c \<in> set [CHR 0x09, CHR 0x0A, CHR 0x0B, CHR 0x0C, CHR 0x0D, CHR '' ''])"

definition trim :: "string \<Rightarrow> string" where
  "trim w = rev (dropWhile isWhiteSpace (rev (dropWhile isWhiteSpace w)))"

definition normalizeWord :: "string \<Rightarrow> string" where
  "normalizeWord w = trim (toUpperCase w)"

text \<open>
  The string tags of the feedback and status fields. At run time both environments use
  plain strings, and the runner compares them as strings, so one datatype holds every
  tag: \<open>Result\<close> for \<^verbatim>\<open>feedback.result\<close>, \<open>Status\<close> for the environment status.
  The grouping game only ever uses \<open>in_progress\<close>, \<open>success\<close>, \<open>fail\<close>, \<open>gave_up\<close>;
  the grid game uses \<open>in_progress\<close>, \<open>success_clean\<close>, \<open>success_with_reveals\<close>,
  \<open>fail\<close>, \<open>gave_up\<close>.
\<close>

datatype Result =
  correct | incorrect | filled | cleared | checked | submitted | invalid_action | gave_up_result

datatype Status =
  in_progress | success | success_clean | success_with_reveals | fail | gave_up

text \<open>The two errors thrown by \<^verbatim>\<open>step\<close> of either environment.\<close>

datatype EnvError = NotInitialized | AlreadyFinished

section \<open>The grouping game: ConnectionsEnv\<close>

datatype Level = yellow | green | blue | purple

record ConnectionsGroup =
  level :: Level
  category :: string
  group_words :: "string list"

record ConnectionsPuzzle =
  puzzle_id :: string
  puzzle_words :: "string list"
  groups :: "ConnectionsGroup list"

datatype ConnectionsAction =
  submit_group "string list"
| give_up
| unknown_action

text \<open>
  The human-readable message of a feedback, kept as its template together with the
  values interpolated into it.
\<close>

datatype ConnectionsMessage =
  MsgUnknownAction
| MsgGaveUp
| MsgExactlyFour
| MsgAllDifferent
| MsgNotRemaining string
| MsgCorrectAll string
| MsgCorrect string
| MsgOneAwayGameOver
| MsgIncorrectGameOver
| MsgOneAway int
| MsgIncorrect int

record ConnectionsFeedback =
  cf_result :: Result
  cf_oneAway :: "bool option"
  cf_message :: ConnectionsMessage
  cf_foundGroup :: "ConnectionsGroup option"
  cf_done :: bool
  cf_status :: "Status option"

record ConnectionsHistoryEntry =
  ch_stepIndex :: nat
  ch_action :: ConnectionsAction
  ch_feedback :: ConnectionsFeedback

record ConnectionsEnvState =
  puzzle :: ConnectionsPuzzle
  remainingWords :: "string list"
  foundGroups :: "ConnectionsGroup list"
  mistakesLeft :: int
  c_history :: "ConnectionsHistoryEntry list"
  c_stateVersion :: nat
  c_done :: bool
  c_status :: Status

text \<open>The private field \<^verbatim>\<open>state\<close> is \<^verbatim>\<open>null\<close> until \<^verbatim>\<open>reset\<close> is called.\<close>

type_synonym ConnectionsEnv = "ConnectionsEnvState option"

text \<open>
  \<^verbatim>\<open>reset\<close> shuffles the puzzle's words with a random comparator; the shuffled order
  (a rearrangement of \<open>puzzle_words\<close>) is an argument of the model.
\<close>

definition Connections_reset :: "ConnectionsPuzzle \<Rightarrow> string list \<Rightarrow> ConnectionsEnv" where
  "Connections_reset p shuffledWords =
     Some \<lparr> puzzle = p, remainingWords = shuffledWords, foundGroups = [], mistakesLeft = 4,
            c_history = [], c_stateVersion = 0, c_done = False, c_status = in_progress \<rparr>"

definition Connections_handleGiveUp ::
  "ConnectionsEnvState \<Rightarrow> ConnectionsEnvState \<times> ConnectionsFeedback" where
  "Connections_handleGiveUp s =
     (s\<lparr>c_done := True, c_status := gave_up\<rparr>,
      \<lparr> cf_result = gave_up_result, cf_oneAway = None, cf_message = MsgGaveUp,
        cf_foundGroup = None, cf_done = True, cf_status = Some gave_up \<rparr>)"

definition invalidFeedback :: "ConnectionsMessage \<Rightarrow> ConnectionsFeedback" where
  "invalidFeedback m =
     \<lparr> cf_result = invalid_action, cf_oneAway = None, cf_message = m,
       cf_foundGroup = None, cf_done = False, cf_status = None \<rparr>"

definition normalizedGroup :: "ConnectionsGroup \<Rightarrow> string list" where
  "normalizedGroup g = map normalizeWord (group_words g)"

text \<open>\<^verbatim>\<open>normalizedSubmitted.filter((w) => normalizedGroup.includes(w))\<close>\<close>

definition matches :: "ConnectionsGroup \<Rightarrow> string list \<Rightarrow> string list" where
  "matches g normalizedSubmitted = filter (\<lambda>w. w \<in> set (normalizedGroup g)) normalizedSubmitted"

text \<open>The loop that returns at the first submitted word that is not remaining.\<close>

fun notRemainingLoop :: "string list \<Rightarrow> string list \<Rightarrow> string option" where
  "notRemainingLoop [] normalizedRemaining = None"
| "notRemainingLoop (word # rest) normalizedRemaining =
     (if word \<notin> set normalizedRemaining then Some word
      else notRemainingLoop rest normalizedRemaining)"

text \<open>The loop over the puzzle's groups that returns at the first 4-of-4 match.\<close>

fun matchLoop :: "ConnectionsGroup list \<Rightarrow> string list \<Rightarrow> ConnectionsGroup option" where
  "matchLoop [] normalizedSubmitted = None"
| "matchLoop (g # gs) normalizedSubmitted =
     (if length (matches g normalizedSubmitted) = 4 then Some g
      else matchLoop gs normalizedSubmitted)"

text \<open>
  The one-away loop: a group whose category is that of a found group is skipped
  (\<^verbatim>\<open>continue\<close>); the loop stops (\<^verbatim>\<open>break\<close>) at the first other group with exactly
  three matches.
\<close>

fun oneAwayLoop :: "ConnectionsGroup list \<Rightarrow> ConnectionsGroup list \<Rightarrow> string list \<Rightarrow> bool" where
  "oneAwayLoop [] found normalizedSubmitted = False"
| "oneAwayLoop (g # gs) found normalizedSubmitted =
     (if list_ex (\<lambda>fg. category fg = category g) found
      then oneAwayLoop gs found normalizedSubmitted
      else if length (matches g normalizedSubmitted) = 3 then True
      else oneAwayLoop gs found normalizedSubmitted)"

definition handleSubmitGroup ::
  "ConnectionsEnvState \<Rightarrow> string list \<Rightarrow> ConnectionsEnvState \<times> ConnectionsFeedback" where
  "handleSubmitGroup s submittedWords =
     (let normalizedSubmitted = map normalizeWord submittedWords;
          normalizedRemaining = map normalizeWord (remainingWords s)
      in
      if length normalizedSubmitted \<noteq> 4 then (s, invalidFeedback MsgExactlyFour)
      else if length (remdups normalizedSubmitted) \<noteq> 4 then (s, invalidFeedback MsgAllDifferent)
      else
        (case notRemainingLoop normalizedSubmitted normalizedRemaining of
           Some word \<Rightarrow> (s, invalidFeedback (MsgNotRemaining word))
         | None \<Rightarrow>
            (case matchLoop (groups (puzzle s)) normalizedSubmitted of
               Some g \<Rightarrow>
                 (let s1 = s\<lparr> foundGroups := foundGroups s @ [g],
                               remainingWords :=
                                 filter (\<lambda>w. normalizeWord w \<notin> set (normalizedGroup g))
                                   (remainingWords s) \<rparr>
                  in
                  if length (foundGroups s1) = 4
                  then (s1\<lparr>c_done := True, c_status := success\<rparr>,
                        \<lparr> cf_result = correct, cf_oneAway = None,
                          cf_message = MsgCorrectAll (category g),
                          cf_foundGroup = Some g, cf_done = True, cf_status = Some success \<rparr>)
                  else (s1,
                        \<lparr> cf_result = correct, cf_oneAway = None,
                          cf_message = MsgCorrect (category g),
                          cf_foundGroup = Some g, cf_done = False, cf_status = None \<rparr>))
             | None \<Rightarrow>
                 (let isOneAway = oneAwayLoop (groups (puzzle s)) (foundGroups s) normalizedSubmitted;
                      s1 = s\<lparr> mistakesLeft := mistakesLeft s - 1 \<rparr>
                  in
                  if mistakesLeft s1 \<le> 0
                  then (s1\<lparr>c_done := True, c_status := fail\<rparr>,
                        \<lparr> cf_result = incorrect, cf_oneAway = Some isOneAway,
                          cf_message = (if isOneAway then MsgOneAwayGameOver else MsgIncorrectGameOver),
                          cf_foundGroup = None, cf_done = True, cf_status = Some fail \<rparr>)
                  else (s1,
                        \<lparr> cf_result = incorrect, cf_oneAway = Some isOneAway,
                          cf_message = (if isOneAway then MsgOneAway (mistakesLeft s1)
                                        else MsgIncorrect (mistakesLeft s1)),
                          cf_foundGroup = None, cf_done = False, cf_status = None \<rparr>)))))"

text \<open>
  \<^verbatim>\<open>step\<close> throws before touching anything when the environment was never reset or the
  game is finished; the model returns the environment (unchanged in that case) together
  with the error or the feedback. On the normal path the handler runs, then the history
  entry is appended and the state version is incremented. The observation returned next
  to the feedback is a copy of fields of the new state and is not modelled separately.
\<close>

definition Connections_step ::
  "ConnectionsEnv \<Rightarrow> ConnectionsAction \<Rightarrow> ConnectionsEnv \<times> (EnvError + ConnectionsFeedback)" where
  "Connections_step env action =
     (case env of
        None \<Rightarrow> (None, Inl NotInitialized)
      | Some s \<Rightarrow>
          if c_done s then (Some s, Inl AlreadyFinished)
          else
            (let (s1, feedback) =
                   (case action of
                      give_up \<Rightarrow> Connections_handleGiveUp s
                    | submit_group ws \<Rightarrow> handleSubmitGroup s ws
                    | unknown_action \<Rightarrow> (s, invalidFeedback MsgUnknownAction));
                 s2 = s1\<lparr> c_history := c_history s1 @
                             [\<lparr> ch_stepIndex = length (c_history s1), ch_action = action,
                                ch_feedback = feedback \<rparr>],
                          c_stateVersion := c_stateVersion s1 + 1 \<rparr>
             in (Some s2, Inr feedback)))"

definition Connections_isDone :: "ConnectionsEnv \<Rightarrow> bool" where
  "Connections_isDone env = (case env of None \<Rightarrow> False | Some s \<Rightarrow> c_done s)"

definition Connections_getStatus :: "ConnectionsEnv \<Rightarrow> Status" where
  "Connections_getStatus env = (case env of None \<Rightarrow> in_progress | Some s \<Rightarrow> c_status s)"

text \<open>The puzzle of the repository's test file, used for the concrete checks below.\<close>

definition samplePuzzle :: ConnectionsPuzzle where
  "samplePuzzle =
     \<lparr> puzzle_id = ''connections-test'',
       puzzle_words = [''HAIL'', ''RAIN'', ''SLEET'', ''SNOW'', ''BUCKS'', ''HEAT'', ''JAZZ'', ''NETS'',
                       ''OPTION'', ''RETURN'', ''SHIFT'', ''TAB'', ''KAYAK'', ''LEVEL'', ''MOM'', ''RACECAR''],
       groups =
         [\<lparr> level = yellow, category = ''WET WEATHER'',
             group_words = [''HAIL'', ''RAIN'', ''SLEET'', ''SNOW''] \<rparr>,
          \<lparr> level = green, category = ''NBA TEAMS'',
             group_words = [''BUCKS'', ''HEAT'', ''JAZZ'', ''NETS''] \<rparr>,
          \<lparr> level = blue, category = ''KEYBOARD KEYS'',
             group_words = [''OPTION'', ''RETURN'', ''SHIFT'', ''TAB''] \<rparr>,
          \<lparr> level = purple, category = ''PALINDROMES'',
             group_words = [''KAYAK'', ''LEVEL'', ''MOM'', ''RACECAR''] \<rparr>] \<rparr>"

definition sampleState :: ConnectionsEnvState where
  "sampleState =
     \<lparr> puzzle = samplePuzzle, remainingWords = puzzle_words samplePuzzle, foundGroups = [],
       mistakesLeft = 4, c_history = [], c_stateVersion = 0, c_done = False,
       c_status = in_progress \<rparr>"


text \<open>
  A caller that submits one action after the other, keeping every outcome (the feedback,
  or the error thrown by \<^verbatim>\<open>step\<close>).
\<close>

fun Connections_steps ::
  "ConnectionsEnv \<Rightarrow> ConnectionsAction list \<Rightarrow>
     ConnectionsEnv \<times> (EnvError + ConnectionsFeedback) list" where
  "Connections_steps env [] = (env, [])"
| "Connections_steps env (a # as) =
     (let (env1, r) = Connections_step env a;
          (env2, rs) = Connections_steps env1 as
      in (env2, r # rs))"

definition isIncorrect :: "EnvError + ConnectionsFeedback \<Rightarrow> bool" where
  "isIncorrect r = (case r of Inl e \<Rightarrow> False | Inr fb \<Rightarrow> cf_result fb = incorrect)"

definition incorrectCount :: "(EnvError + ConnectionsFeedback) list \<Rightarrow> nat" where
  "incorrectCount rs = length (filter isIncorrect rs)"

text \<open>
  The invariant behind the mistake budget: the counter never goes below zero, and it is
  zero only in the terminal state \<open>fail\<close>.
\<close>

definition mistakes_inv :: "ConnectionsEnvState \<Rightarrow> bool" where
  "mistakes_inv s = (0 \<le> mistakesLeft s \<and> (mistakesLeft s = 0 \<longrightarrow> c_done s \<and> c_status s = fail))"

text \<open>
  The words of a found group are gone from the remaining words (compared after
  normalisation).
\<close>

definition found_removed :: "ConnectionsEnvState \<Rightarrow> bool" where
  "found_removed s =
     (\<forall>g \<in> set (foundGroups s). \<forall>w \<in> set (remainingWords s).
        normalizeWord w \<notin> set (normalizedGroup g))"

section \<open>The grid game: CrosswordEnv\<close>

datatype Direction = across | down

text \<open>
  Clue numbers and the declared entry length are JavaScript numbers, modelled as
  integers; cell indices are indices into the linear grid, modelled as natural numbers.
\<close>

record CrosswordClue =
  clue_number :: int
  clue_text :: string
  clue_length :: int
  cells :: "nat list"

record CrosswordPuzzle =
  xp_id :: string
  width :: int
  height :: int
  grid :: "string list"
  clues_across :: "CrosswordClue list"
  clues_down :: "CrosswordClue list"
  solution_grid :: "string list"

record CrosswordEnvConfig =
  allowChecks :: bool
  allowReveals :: bool

datatype CrosswordAction =
  fill_entry Direction int string
| clear_entry Direction int
| check_entry Direction int
| submit_puzzle
| xw_give_up
| xw_unknown_action

datatype CrosswordMessage =
  XMsgUnknownAction
| XMsgNoClue Direction int
| XMsgLengthMismatch nat int
| XMsgOnlyLetters
| XMsgFilled Direction int string
| XMsgCleared Direction int
| XMsgChecksNotAllowed
| XMsgNotFullyFilled Direction int
| XMsgEntryCorrect Direction int
| XMsgEntryIncorrect Direction int nat
| XMsgCompleteWithReveals
| XMsgComplete
| XMsgIncomplete nat
| XMsgGaveUp

record CrosswordFeedback =
  xf_result :: Result
  xf_message :: CrosswordMessage
  xf_wrongCells :: "nat list option"
  xf_newlyWrongCells :: "nat list option"
  xf_success :: "bool option"
  xf_successType :: "Status option"
  xf_incorrectCells :: "nat list option"
  xf_done :: bool
  xf_status :: "Status option"

record CrosswordHistoryEntry =
  xh_stepIndex :: nat
  xh_action :: CrosswordAction
  xh_feedback :: CrosswordFeedback

text \<open>
  A cell of the fill grid holds a string (\<^verbatim>\<open>"#"\<close>, \<^verbatim>\<open>"."\<close> or a letter) or, after a
  write past the end of the array or of a letter that does not exist, \<^verbatim>\<open>undefined\<close>,
  which is \<open>None\<close>. The two \<^verbatim>\<open>Set<number>\<close> fields are sets of cell indices. The clue
  lookup \<^verbatim>\<open>clueMap\<close>, the second private field of the class, is keyed by the string
  \<^verbatim>\<open>`${direction}-${number}`\<close>, that is by the pair of direction and number; it is kept
  in the state record, since \<^verbatim>\<open>reset\<close> sets both fields together.
\<close>

record CrosswordEnvState =
  x_puzzle :: CrosswordPuzzle
  config :: CrosswordEnvConfig
  fillGrid :: "string option list"
  checkedWrongCells :: "nat set"
  revealedCells :: "nat set"
  x_history :: "CrosswordHistoryEntry list"
  x_stateVersion :: nat
  x_done :: bool
  x_status :: Status
  checksPerformed :: nat
  clueMap :: "Direction \<times> int \<Rightarrow> CrosswordClue option"

type_synonym CrosswordEnv = "CrosswordEnvState option"

text \<open>
  Array reads and writes as JavaScript does them: a read out of range gives
  \<^verbatim>\<open>undefined\<close>, a write past the end extends the array with holes.
\<close>

definition at :: "'a list \<Rightarrow> nat \<Rightarrow> 'a option" where
  "at xs i = (if i < length xs then Some (xs ! i) else None)"

definition fillAt :: "string option list \<Rightarrow> nat \<Rightarrow> string option" where
  "fillAt g i = (if i < length g then g ! i else None)"

definition jsAssign :: "string option list \<Rightarrow> nat \<Rightarrow> string option \<Rightarrow> string option list" where
  "jsAssign g i v =
     (if i < length g then g[i := v] else g @ replicate (i - length g) None @ [v])"

text \<open>\<^verbatim>\<open>normalizedAnswer[i]\<close>: the one-letter string at \<open>i\<close>, or \<^verbatim>\<open>undefined\<close>.\<close>

definition charAt :: "string \<Rightarrow> nat \<Rightarrow> string option" where
  "charAt w i = (if i < length w then Some [w ! i] else None)"

definition isUpperAZ :: "char \<Rightarrow> bool" where
  "isUpperAZ c = (c \<in> set ''ABCDEFGHIJKLMNOPQRSTUVWXYZ'')"

text \<open>\<^verbatim>\<open>answer.toUpperCase().replace(/[^A-Z]/g, "")\<close>\<close>

definition normalizeAnswer :: "string \<Rightarrow> string" where
  "normalizeAnswer answer = filter isUpperAZ (toUpperCase answer)"

text \<open>\<^verbatim>\<open>/^[A-Z]+$/.test(w)\<close>\<close>

definition onlyLetters :: "string \<Rightarrow> bool" where
  "onlyLetters w = (w \<noteq> [] \<and> list_all isUpperAZ w)"

text \<open>The clue lookup of \<^verbatim>\<open>reset\<close>: across clues first, then down clues, later entries win.\<close>

definition buildClueMap :: "CrosswordPuzzle \<Rightarrow> (Direction \<times> int \<Rightarrow> CrosswordClue option)" where
  "buildClueMap p =
     fold (\<lambda>clue m. m((down, clue_number clue) \<mapsto> clue)) (clues_down p)
       (fold (\<lambda>clue m. m((across, clue_number clue) \<mapsto> clue)) (clues_across p) Map.empty)"

definition Crossword_reset :: "CrosswordPuzzle \<Rightarrow> CrosswordEnvConfig \<Rightarrow> CrosswordEnv" where
  "Crossword_reset p cfg =
     Some \<lparr> x_puzzle = p, config = cfg,
            fillGrid = map (\<lambda>cell. Some (if cell = ''#'' then ''#'' else ''.'')) (grid p),
            checkedWrongCells = {}, revealedCells = {}, x_history = [], x_stateVersion = 0,
            x_done = False, x_status = in_progress, checksPerformed = 0,
            clueMap = buildClueMap p \<rparr>"

definition xInvalid :: "CrosswordMessage \<Rightarrow> CrosswordFeedback" where
  "xInvalid m =
     \<lparr> xf_result = invalid_action, xf_message = m, xf_wrongCells = None,
       xf_newlyWrongCells = None, xf_success = None, xf_successType = None,
       xf_incorrectCells = None, xf_done = False, xf_status = None \<rparr>"

text \<open>
  The loop of \<^verbatim>\<open>handleFillEntry\<close> over \<^verbatim>\<open>i < clue.cells.length\<close>: write letter \<open>i\<close> into
  cell \<open>i\<close> of the clue and delete the cell from the known-wrong set.
\<close>

fun fillLoop ::
  "nat list \<Rightarrow> nat \<Rightarrow> string \<Rightarrow> string option list \<times> nat set \<Rightarrow> string option list \<times> nat set" where
  "fillLoop [] i normalizedAnswer (g, wrong) = (g, wrong)"
| "fillLoop (cellIndex # rest) i normalizedAnswer (g, wrong) =
     fillLoop rest (Suc i) normalizedAnswer
       (jsAssign g cellIndex (charAt normalizedAnswer i), wrong - {cellIndex})"

definition handleFillEntry ::
  "CrosswordEnvState \<Rightarrow> Direction \<Rightarrow> int \<Rightarrow> string \<Rightarrow> CrosswordEnvState \<times> CrosswordFeedback" where
  "handleFillEntry s direction number answer =
     (case clueMap s (direction, number) of
        None \<Rightarrow> (s, xInvalid (XMsgNoClue direction number))
      | Some clue \<Rightarrow>
          (let normalizedAnswer = normalizeAnswer answer in
           if int (length normalizedAnswer) \<noteq> clue_length clue
           then (s, xInvalid (XMsgLengthMismatch (length normalizedAnswer) (clue_length clue)))
           else if \<not> onlyLetters normalizedAnswer then (s, xInvalid XMsgOnlyLetters)
           else
             (let (g, wrong) =
                    fillLoop (cells clue) 0 normalizedAnswer (fillGrid s, checkedWrongCells s)
              in (s\<lparr> fillGrid := g, checkedWrongCells := wrong \<rparr>,
                  \<lparr> xf_result = filled, xf_message = XMsgFilled direction number normalizedAnswer,
                    xf_wrongCells = None, xf_newlyWrongCells = None, xf_success = None,
                    xf_successType = None, xf_incorrectCells = None, xf_done = False,
                    xf_status = None \<rparr>))))"

text \<open>The loop of \<^verbatim>\<open>handleClearEntry\<close>: revealed cells are left alone.\<close>

fun clearLoop ::
  "nat list \<Rightarrow> nat set \<Rightarrow> string option list \<times> nat set \<Rightarrow> string option list \<times> nat set" where
  "clearLoop [] revealed (g, wrong) = (g, wrong)"
| "clearLoop (cellIndex # rest) revealed (g, wrong) =
     (if cellIndex \<notin> revealed
      then clearLoop rest revealed (jsAssign g cellIndex (Some ''.''), wrong - {cellIndex})
      else clearLoop rest revealed (g, wrong))"

definition handleClearEntry ::
  "CrosswordEnvState \<Rightarrow> Direction \<Rightarrow> int \<Rightarrow> CrosswordEnvState \<times> CrosswordFeedback" where
  "handleClearEntry s direction number =
     (case clueMap s (direction, number) of
        None \<Rightarrow> (s, xInvalid (XMsgNoClue direction number))
      | Some clue \<Rightarrow>
          (let (g, wrong) = clearLoop (cells clue) (revealedCells s) (fillGrid s, checkedWrongCells s)
           in (s\<lparr> fillGrid := g, checkedWrongCells := wrong \<rparr>,
               \<lparr> xf_result = cleared, xf_message = XMsgCleared direction number,
                 xf_wrongCells = None, xf_newlyWrongCells = None, xf_success = None,
                 xf_successType = None, xf_incorrectCells = None, xf_done = False,
                 xf_status = None \<rparr>)))"

text \<open>The first loop of \<^verbatim>\<open>handleCheckEntry\<close>: is some cell of the clue still \<^verbatim>\<open>"."\<close>?\<close>

fun notFilledLoop :: "nat list \<Rightarrow> string option list \<Rightarrow> bool" where
  "notFilledLoop [] g = False"
| "notFilledLoop (cellIndex # rest) g =
     (if fillAt g cellIndex = Some ''.'' then True else notFilledLoop rest g)"

text \<open>
  The second loop: compare each cell of the clue with the solution; a differing cell is
  pushed to \<^verbatim>\<open>wrongCells\<close>, and to \<^verbatim>\<open>newlyWrongCells\<close> and the known-wrong set when it
  is not in that set yet.
\<close>

fun checkLoop ::
  "nat list \<Rightarrow> string option list \<Rightarrow> string list \<Rightarrow> nat list \<times> nat list \<times> nat set \<Rightarrow>
     nat list \<times> nat list \<times> nat set" where
  "checkLoop [] g sol acc = acc"
| "checkLoop (cellIndex # rest) g sol (wrongCells, newlyWrongCells, wrong) =
     (if fillAt g cellIndex \<noteq> at sol cellIndex
      then (if cellIndex \<notin> wrong
            then checkLoop rest g sol
                   (wrongCells @ [cellIndex], newlyWrongCells @ [cellIndex], insert cellIndex wrong)
            else checkLoop rest g sol (wrongCells @ [cellIndex], newlyWrongCells, wrong))
      else checkLoop rest g sol (wrongCells, newlyWrongCells, wrong))"

definition handleCheckEntry ::
  "CrosswordEnvState \<Rightarrow> Direction \<Rightarrow> int \<Rightarrow> CrosswordEnvState \<times> CrosswordFeedback" where
  "handleCheckEntry s direction number =
     (if \<not> allowChecks (config s) then (s, xInvalid XMsgChecksNotAllowed)
      else
        (case clueMap s (direction, number) of
           None \<Rightarrow> (s, xInvalid (XMsgNoClue direction number))
         | Some clue \<Rightarrow>
             if notFilledLoop (cells clue) (fillGrid s)
             then (s, xInvalid (XMsgNotFullyFilled direction number))
             else
               (let (wrongCells, newlyWrongCells, wrong) =
                      checkLoop (cells clue) (fillGrid s) (solution_grid (x_puzzle s))
                        ([], [], checkedWrongCells s);
                    s1 = s\<lparr> checkedWrongCells := wrong, checksPerformed := checksPerformed s + 1 \<rparr>
                in
                if length wrongCells = 0
                then (s1,
                      \<lparr> xf_result = checked, xf_message = XMsgEntryCorrect direction number,
                        xf_wrongCells = Some [], xf_newlyWrongCells = Some [], xf_success = None,
                        xf_successType = None, xf_incorrectCells = None, xf_done = False,
                        xf_status = None \<rparr>)
                else (s1,
                      \<lparr> xf_result = checked,
                        xf_message = XMsgEntryIncorrect direction number (length wrongCells),
                        xf_wrongCells = Some wrongCells, xf_newlyWrongCells = Some newlyWrongCells,
                        xf_success = None, xf_successType = None, xf_incorrectCells = None,
                        xf_done = False, xf_status = None \<rparr>))))"

text \<open>
  The loop of \<^verbatim>\<open>handleSubmitPuzzle\<close> over \<^verbatim>\<open>i < fillGrid.length\<close>: skip the cells whose
  solution is a block, push the index of every other cell that differs from the solution.
\<close>

fun submitLoop :: "nat list \<Rightarrow> string option list \<Rightarrow> string list \<Rightarrow> nat list \<Rightarrow> nat list" where
  "submitLoop [] g sol incorrectCells = incorrectCells"
| "submitLoop (i # rest) g sol incorrectCells =
     (if at sol i = Some ''#'' then submitLoop rest g sol incorrectCells
      else if fillAt g i \<noteq> at sol i then submitLoop rest g sol (incorrectCells @ [i])
      else submitLoop rest g sol incorrectCells)"

definition handleSubmitPuzzle :: "CrosswordEnvState \<Rightarrow> CrosswordEnvState \<times> CrosswordFeedback" where
  "handleSubmitPuzzle s =
     (let incorrectCells =
            submitLoop [0 ..< length (fillGrid s)] (fillGrid s) (solution_grid (x_puzzle s)) []
      in
      if length incorrectCells = 0
      then
        (let hasReveals = (revealedCells s \<noteq> {});
             successType = (if hasReveals then success_with_reveals else success_clean)
         in (s\<lparr> x_done := True, x_status := successType \<rparr>,
             \<lparr> xf_result = submitted,
               xf_message = (if hasReveals then XMsgCompleteWithReveals else XMsgComplete),
               xf_wrongCells = None, xf_newlyWrongCells = None, xf_success = Some True,
               xf_successType = Some successType, xf_incorrectCells = None, xf_done = True,
               xf_status = Some successType \<rparr>))
      else
        (s\<lparr> x_done := True, x_status := fail \<rparr>,
         \<lparr> xf_result = submitted, xf_message = XMsgIncomplete (length incorrectCells),
           xf_wrongCells = None, xf_newlyWrongCells = None, xf_success = Some False,
           xf_successType = None, xf_incorrectCells = Some incorrectCells, xf_done = True,
           xf_status = Some fail \<rparr>))"

definition Crossword_handleGiveUp :: "CrosswordEnvState \<Rightarrow> CrosswordEnvState \<times> CrosswordFeedback" where
  "Crossword_handleGiveUp s =
     (s\<lparr> x_done := True, x_status := gave_up \<rparr>,
      \<lparr> xf_result = gave_up_result, xf_message = XMsgGaveUp, xf_wrongCells = None,
        xf_newlyWrongCells = None, xf_success = None, xf_successType = None,
        xf_incorrectCells = None, xf_done = True, xf_status = Some gave_up \<rparr>)"

definition Crossword_step ::
  "CrosswordEnv \<Rightarrow> CrosswordAction \<Rightarrow> CrosswordEnv \<times> (EnvError + CrosswordFeedback)" where
  "Crossword_step env action =
     (case env of
        None \<Rightarrow> (None, Inl NotInitialized)
      | Some s \<Rightarrow>
          if x_done s then (Some s, Inl AlreadyFinished)
          else
            (let (s1, feedback) =
                   (case action of
                      fill_entry direction number answer \<Rightarrow> handleFillEntry s direction number answer
                    | clear_entry direction number \<Rightarrow> handleClearEntry s direction number
                    | check_entry direction number \<Rightarrow> handleCheckEntry s direction number
                    | submit_puzzle \<Rightarrow> handleSubmitPuzzle s
                    | xw_give_up \<Rightarrow> Crossword_handleGiveUp s
                    | xw_unknown_action \<Rightarrow> (s, xInvalid XMsgUnknownAction));
                 s2 = s1\<lparr> x_history := x_history s1 @
                             [\<lparr> xh_stepIndex = length (x_history s1), xh_action = action,
                                xh_feedback = feedback \<rparr>],
                          x_stateVersion := x_stateVersion s1 + 1 \<rparr>
             in (Some s2, Inr feedback)))"

definition Crossword_isDone :: "CrosswordEnv \<Rightarrow> bool" where
  "Crossword_isDone env = (case env of None \<Rightarrow> False | Some s \<Rightarrow> x_done s)"

definition Crossword_getStatus :: "CrosswordEnv \<Rightarrow> Status" where
  "Crossword_getStatus env = (case env of None \<Rightarrow> in_progress | Some s \<Rightarrow> x_status s)"

fun Crossword_steps ::
  "CrosswordEnv \<Rightarrow> CrosswordAction list \<Rightarrow> CrosswordEnv \<times> (EnvError + CrosswordFeedback) list" where
  "Crossword_steps env [] = (env, [])"
| "Crossword_steps env (a # as) =
     (let (env1, r) = Crossword_step env a;
          (env2, rs) = Crossword_steps env1 as
      in (env2, r # rs))"

text \<open>A three by three grid with one block, for the concrete checks below.\<close>

definition sampleCrossword :: CrosswordPuzzle where
  "sampleCrossword =
     \<lparr> xp_id = ''xword-test'', width = 3, height = 3,
       grid = [''.'', ''.'', ''.'', ''.'', ''#'', ''.'', ''.'', ''.'', ''.''],
       clues_across =
         [\<lparr> clue_number = 1, clue_text = ''Pet that purrs'', clue_length = 3, cells = [0, 1, 2] \<rparr>,
          \<lparr> clue_number = 4, clue_text = ''Lad'', clue_length = 3, cells = [6, 7, 8] \<rparr>],
       clues_down =
         [\<lparr> clue_number = 1, clue_text = ''Taxi'', clue_length = 3, cells = [0, 3, 6] \<rparr>,
          \<lparr> clue_number = 3, clue_text = ''Plaything'', clue_length = 3, cells = [2, 5, 8] \<rparr>],
       solution_grid = [''C'', ''A'', ''T'', ''A'', ''#'', ''O'', ''B'', ''O'', ''Y''] \<rparr>"

definition sampleCrosswordState :: CrosswordEnvState where
  "sampleCrosswordState =
     the (Crossword_reset sampleCrossword \<lparr> allowChecks = True, allowReveals = False \<rparr>)"

definition solvedCrosswordState :: CrosswordEnvState where
  "solvedCrosswordState =
     fst (handleFillEntry
       (fst (handleFillEntry
         (fst (handleFillEntry
           (fst (handleFillEntry sampleCrosswordState across 1 ''cat'')) across 4 ''boy''))
         down 1 ''cab''))
       down 3 ''toy'')"

definition cotCrosswordState :: CrosswordEnvState where
  "cotCrosswordState = fst (handleFillEntry sampleCrosswordState across 1 ''cot'')"

section \<open>The step loop: runSingleEvaluation\<close>

datatype RunStatus =
  run_success_clean | run_success_with_reveals | run_success | run_fail | run_timeout | run_error

text \<open>The strings behind the tags, to compare an environment status with a run status.\<close>

fun Status_name :: "Status \<Rightarrow> string" where
  "Status_name in_progress = ''in_progress''"
| "Status_name success = ''success''"
| "Status_name success_clean = ''success_clean''"
| "Status_name success_with_reveals = ''success_with_reveals''"
| "Status_name fail = ''fail''"
| "Status_name gave_up = ''gave_up''"

fun RunStatus_name :: "RunStatus \<Rightarrow> string" where
  "RunStatus_name run_success_clean = ''success_clean''"
| "RunStatus_name run_success_with_reveals = ''success_with_reveals''"
| "RunStatus_name run_success = ''success''"
| "RunStatus_name run_fail = ''fail''"
| "RunStatus_name run_timeout = ''timeout''"
| "RunStatus_name run_error = ''error''"

text \<open>The fields of the suite configuration that the loop reads.\<close>

record SuiteConfig =
  maxSteps :: int
  runTimeoutMs :: int
  maxInvalidActions :: int
  crosswordRules :: CrosswordEnvConfig

text \<open>
  What one call of the agent client followed by the parse gives: the call failed
  (\<^verbatim>\<open>catch (apiError)\<close>), the content did not parse as an action of the game
  (\<^verbatim>\<open>catch (parseError)\<close>), or an action was parsed.
\<close>

datatype 'a AgentReply = ApiError | ParseError | Parsed 'a

text \<open>
  The loop is written once for both games and picks the environment's methods by the
  kind of puzzle. The model takes the three methods it calls as a record; of the
  feedback the loop reads the \<^verbatim>\<open>result\<close> tag only.
\<close>

record ('e, 'a) EnvOps =
  ops_step :: "'e \<Rightarrow> 'a \<Rightarrow> 'e \<times> (EnvError + Result)"
  ops_isDone :: "'e \<Rightarrow> bool"
  ops_getStatus :: "'e \<Rightarrow> Status"

definition ConnectionsOps :: "(ConnectionsEnv, ConnectionsAction) EnvOps" where
  "ConnectionsOps =
     \<lparr> ops_step = (\<lambda>env action.
          case Connections_step env action of
            (env', Inl err) \<Rightarrow> (env', Inl err)
          | (env', Inr feedback) \<Rightarrow> (env', Inr (cf_result feedback))),
       ops_isDone = Connections_isDone,
       ops_getStatus = Connections_getStatus \<rparr>"

definition CrosswordOps :: "(CrosswordEnv, CrosswordAction) EnvOps" where
  "CrosswordOps =
     \<lparr> ops_step = (\<lambda>env action.
          case Crossword_step env action of
            (env', Inl err) \<Rightarrow> (env', Inl err)
          | (env', Inr feedback) \<Rightarrow> (env', Inr (xf_result feedback))),
       ops_isDone = Crossword_isDone,
       ops_getStatus = Crossword_getStatus \<rparr>"

text \<open>
  The variables of the loop that decide the summary: the environment, \<^verbatim>\<open>status\<close>,
  \<^verbatim>\<open>invalidActions\<close> and the number of step records pushed (\<^verbatim>\<open>steps.length\<close>, the
  summary's \<^verbatim>\<open>stepsTaken\<close>).
\<close>

record 'e Run =
  run_env :: 'e
  status :: RunStatus
  invalidActions :: nat
  stepsTaken :: nat

datatype 'e LoopControl = Break "'e Run" | Continue "'e Run"

text \<open>
  The chain of comparisons on the environment status when the environment is done; when
  none applies the status variable keeps its value.
\<close>

definition mapEnvStatus :: "Status \<Rightarrow> RunStatus \<Rightarrow> RunStatus" where
  "mapEnvStatus envStatus current =
     (if envStatus = success then run_success
      else if envStatus = success_clean then run_success_clean
      else if envStatus = success_with_reveals then run_success_with_reveals
      else if envStatus = fail \<or> envStatus = gave_up then run_fail
      else current)"

text \<open>The end of an iteration: push the step record, then leave the loop if the environment is done.\<close>

definition recordStep :: "('e, 'a) EnvOps \<Rightarrow> 'e Run \<Rightarrow> 'e LoopControl" where
  "recordStep ops r =
     (let r1 = r\<lparr> stepsTaken := stepsTaken r + 1 \<rparr> in
      if ops_isDone ops (run_env r1)
      then Break (r1\<lparr> status := mapEnvStatus (ops_getStatus ops (run_env r1)) (status r1) \<rparr>)
      else Continue r1)"

text \<open>
  One iteration. \<open>elapsed\<close> is \<^verbatim>\<open>Date.now() - runStartTime\<close> at the top of the iteration,
  \<open>reply\<close> what the agent call and the parse give in it.
\<close>

definition stepBody ::
  "('e, 'a) EnvOps \<Rightarrow> SuiteConfig \<Rightarrow> 'a AgentReply \<Rightarrow> int \<Rightarrow> 'e Run \<Rightarrow> 'e LoopControl" where
  "stepBody ops cfg reply elapsed r =
     (if elapsed > runTimeoutMs cfg then Break (r\<lparr> status := run_timeout \<rparr>)
      else
        (case reply of
           ApiError \<Rightarrow> recordStep ops r
         | ParseError \<Rightarrow> recordStep ops (r\<lparr> invalidActions := invalidActions r + 1 \<rparr>)
         | Parsed action \<Rightarrow>
             (case ops_step ops (run_env r) action of
                (env', Inr result) \<Rightarrow>
                  (let r1 = r\<lparr> run_env := env' \<rparr> in
                   if result = invalid_action
                   then
                     (let r2 = r1\<lparr> invalidActions := invalidActions r1 + 1 \<rparr> in
                      if int (invalidActions r2) \<ge> maxInvalidActions cfg
                      then Break (r2\<lparr> status := run_fail \<rparr>)
                      else recordStep ops r2)
                   else recordStep ops r1)
              | (env', Inl err) \<Rightarrow>
                  recordStep ops (r\<lparr> run_env := env', invalidActions := invalidActions r + 1 \<rparr>))))"

text \<open>\<^verbatim>\<open>for (let stepIndex = 0; stepIndex < this.config.maxSteps; stepIndex++)\<close>\<close>

function stepLoop ::
  "('e, 'a) EnvOps \<Rightarrow> SuiteConfig \<Rightarrow> (nat \<Rightarrow> 'a AgentReply) \<Rightarrow> (nat \<Rightarrow> int) \<Rightarrow> nat \<Rightarrow>
     'e Run \<Rightarrow> 'e Run" where
  "stepLoop ops cfg agent elapsedAt stepIndex r =
     (if int stepIndex < maxSteps cfg
      then
        (case stepBody ops cfg (agent stepIndex) (elapsedAt stepIndex) r of
           Break r' \<Rightarrow> r'
         | Continue r' \<Rightarrow> stepLoop ops cfg agent elapsedAt (Suc stepIndex) r')
      else r)"
  by pat_completeness auto
termination
  by (relation "measure (\<lambda>(ops, cfg, agent, elapsedAt, stepIndex, r). nat (maxSteps cfg - int stepIndex))")
     auto

text \<open>
  The run: the status starts as \<open>error\<close>, the loop runs, and the check after the loop
  turns a status that is still \<open>error\<close> into \<open>timeout\<close> when the run time is over.
  \<open>agent\<close> gives the reply of each step, \<open>elapsedAt\<close> the elapsed time read at the top
  of each step and \<open>elapsedAfter\<close> the one read after the loop. The result holds the
  \<^verbatim>\<open>status\<close>, \<^verbatim>\<open>stepsTaken\<close> and \<^verbatim>\<open>invalidActions\<close> of the summary and the
  environment its metrics are read from.
\<close>

definition runSingleEvaluation ::
  "('e, 'a) EnvOps \<Rightarrow> SuiteConfig \<Rightarrow> (nat \<Rightarrow> 'a AgentReply) \<Rightarrow> (nat \<Rightarrow> int) \<Rightarrow> int \<Rightarrow> 'e \<Rightarrow> 'e Run" where
  "runSingleEvaluation ops cfg agent elapsedAt elapsedAfter env0 =
     (let r = stepLoop ops cfg agent elapsedAt 0
                \<lparr> run_env = env0, status = run_error, invalidActions = 0, stepsTaken = 0 \<rparr>
      in if status r = run_error \<and> elapsedAfter > runTimeoutMs cfg
         then r\<lparr> status := run_timeout \<rparr> else r)"

definition runConnections ::
  "SuiteConfig \<Rightarrow> ConnectionsPuzzle \<Rightarrow> string list \<Rightarrow> (nat \<Rightarrow> ConnectionsAction AgentReply) \<Rightarrow>
     (nat \<Rightarrow> int) \<Rightarrow> int \<Rightarrow> ConnectionsEnv Run" where
  "runConnections cfg p shuffledWords agent elapsedAt elapsedAfter =
     runSingleEvaluation ConnectionsOps cfg agent elapsedAt elapsedAfter
       (Connections_reset p shuffledWords)"

definition runCrossword ::
  "SuiteConfig \<Rightarrow> CrosswordPuzzle \<Rightarrow> (nat \<Rightarrow> CrosswordAction AgentReply) \<Rightarrow>
     (nat \<Rightarrow> int) \<Rightarrow> int \<Rightarrow> CrosswordEnv Run" where
  "runCrossword cfg p agent elapsedAt elapsedAfter =
     runSingleEvaluation CrosswordOps cfg agent elapsedAt elapsedAfter
       (Crossword_reset p (crosswordRules cfg))"

text \<open>A configuration with the default invalid-action cap and a short step budget.\<close>

definition sampleConfig :: SuiteConfig where
  "sampleConfig =
     \<lparr> maxSteps = 8, runTimeoutMs = 300000, maxInvalidActions = 5,
       crosswordRules = \<lparr> allowChecks = True, allowReveals = False \<rparr> \<rparr>"

text \<open>
  In both environments the flag \<^verbatim>\<open>done\<close> is set exactly when the status leaves
  \<open>in_progress\<close>; this holds after \<^verbatim>\<open>reset\<close> and is kept by \<^verbatim>\<open>step\<close>.
\<close>

definition conn_inv :: "ConnectionsEnv \<Rightarrow> bool" where
  "conn_inv env = (\<exists>s. env = Some s \<and> c_done s = (c_status s \<noteq> in_progress))"

definition cross_inv :: "CrosswordEnv \<Rightarrow> bool" where
  "cross_inv env = (\<exists>s. env = Some s \<and> x_done s = (x_status s \<noteq> in_progress))"

text \<open>Agents for the concrete runs below.\<close>

definition giveUpAgent :: "nat \<Rightarrow> ConnectionsAction AgentReply" where
  "giveUpAgent i = Parsed give_up"

definition garbageAgent :: "nat \<Rightarrow> ConnectionsAction AgentReply" where
  "garbageAgent i = ParseError"

definition solvingAgent :: "nat \<Rightarrow> ConnectionsAction AgentReply" where
  "solvingAgent i =
     (if i < 4 then Parsed (submit_group (group_words (groups samplePuzzle ! i))) else ApiError)"

definition mixedAgent :: "nat \<Rightarrow> ConnectionsAction AgentReply" where
  "mixedAgent i =
     (if i = 0 then Parsed (submit_group [''HAIL'', ''BUCKS'', ''OPTION'', ''KAYAK''])
      else if i = 1 then ParseError
      else if i = 2 then Parsed (submit_group [''HAIL'', ''HAIL'', ''RAIN'', ''SLEET''])
      else ApiError)"

definition gridSolvingAgent :: "nat \<Rightarrow> CrosswordAction AgentReply" where
  "gridSolvingAgent i =
     (if i < 5
      then Parsed ([fill_entry across 1 ''cat'', fill_entry across 4 ''boy'',
                    fill_entry down 1 ''cab'', fill_entry down 3 ''toy'', submit_puzzle] ! i)
      else ApiError)"

section \<open>Properties of the grouping game\<close>

subsection \<open>The two paths of \<open>step\<close>\<close>

lemma Connections_step_finished:
  "c_done s \<Longrightarrow> Connections_step (Some s) a = (Some s, Inl AlreadyFinished)"
  by (simp add: Connections_step_def)

lemma Connections_step_running:
  assumes "\<not> c_done s"
  shows "\<exists>s1 fb. (s1, fb) =
            (case a of give_up \<Rightarrow> Connections_handleGiveUp s
                     | submit_group ws \<Rightarrow> handleSubmitGroup s ws
                     | unknown_action \<Rightarrow> (s, invalidFeedback MsgUnknownAction)) \<and>
          Connections_step (Some s) a =
            (Some (s1\<lparr> c_history := c_history s1 @
                         [\<lparr> ch_stepIndex = length (c_history s1), ch_action = a, ch_feedback = fb \<rparr>],
                       c_stateVersion := c_stateVersion s1 + 1 \<rparr>), Inr fb)"
  using assms by (simp add: Connections_step_def Let_def split: prod.splits)

subsection \<open>The loops of \<open>handleSubmitGroup\<close>\<close>

lemma notRemainingLoop_None:
  "(notRemainingLoop ns nr = None) = (set ns \<subseteq> set nr)"
  by (induction ns) auto

lemma matchLoop_Some:
  "matchLoop gs ns = Some g \<Longrightarrow> g \<in> set gs \<and> length (matches g ns) = 4"
  by (induction gs) (auto split: if_splits)

lemma matchLoop_None:
  "(matchLoop gs ns = None) = (\<forall>g \<in> set gs. length (matches g ns) \<noteq> 4)"
  by (induction gs) auto




lemma remdups_four:
  "length ns = 4 \<Longrightarrow> (length (remdups ns) = 4) = distinct ns"
  by (metis length_remdups_eq remdups_id_iff_distinct)

lemma handleSubmitGroup_result:
  "cf_result (snd (handleSubmitGroup s ws)) =
     (if length ws \<noteq> 4 \<or> \<not> distinct (map normalizeWord ws) \<or>
         \<not> set (map normalizeWord ws) \<subseteq> set (map normalizeWord (remainingWords s))
      then invalid_action
      else if \<exists>g \<in> set (groups (puzzle s)). length (matches g (map normalizeWord ws)) = 4
      then correct else incorrect)"
proof (cases "length ws = 4")
  case False
  then show ?thesis by (simp add: handleSubmitGroup_def invalidFeedback_def)
next
  case len: True
  then have rd: "(length (remdups (map normalizeWord ws)) = 4) = distinct (map normalizeWord ws)"
    by (simp add: remdups_four)
  show ?thesis
  proof (cases "matchLoop (groups (puzzle s)) (map normalizeWord ws)")
    case None
    then show ?thesis
      using len rd matchLoop_None [of "groups (puzzle s)" "map normalizeWord ws"]
        notRemainingLoop_None [of "map normalizeWord ws" "map normalizeWord (remainingWords s)"]
      by (auto simp: handleSubmitGroup_def invalidFeedback_def Let_def split: option.splits)
  next
    case (Some g)
    then show ?thesis
      using len rd matchLoop_Some [OF Some]
        notRemainingLoop_None [of "map normalizeWord ws" "map normalizeWord (remainingWords s)"]
      by (auto simp: handleSubmitGroup_def invalidFeedback_def Let_def split: option.splits)
  qed
qed

lemma handleSubmitGroup_invalid_state:
  "cf_result (snd (handleSubmitGroup s ws)) = invalid_action \<Longrightarrow> fst (handleSubmitGroup s ws) = s"
  by (auto simp: handleSubmitGroup_def invalidFeedback_def Let_def split: option.splits if_splits)

lemma handleSubmitGroup_correct_state:
  assumes "cf_result (snd (handleSubmitGroup s ws)) = correct"
  shows "\<exists>g. matchLoop (groups (puzzle s)) (map normalizeWord ws) = Some g \<and>
     cf_foundGroup (snd (handleSubmitGroup s ws)) = Some g \<and>
     foundGroups (fst (handleSubmitGroup s ws)) = foundGroups s @ [g] \<and>
     remainingWords (fst (handleSubmitGroup s ws)) =
       filter (\<lambda>w. normalizeWord w \<notin> set (normalizedGroup g)) (remainingWords s) \<and>
     mistakesLeft (fst (handleSubmitGroup s ws)) = mistakesLeft s \<and>
     puzzle (fst (handleSubmitGroup s ws)) = puzzle s"
  using assms
  by (auto simp: handleSubmitGroup_def invalidFeedback_def Let_def split: option.splits if_splits)

lemma handleSubmitGroup_incorrect_state:
  assumes "cf_result (snd (handleSubmitGroup s ws)) = incorrect"
  shows "cf_oneAway (snd (handleSubmitGroup s ws)) =
           Some (oneAwayLoop (groups (puzzle s)) (foundGroups s) (map normalizeWord ws)) \<and>
         mistakesLeft (fst (handleSubmitGroup s ws)) = mistakesLeft s - 1 \<and>
         foundGroups (fst (handleSubmitGroup s ws)) = foundGroups s \<and>
         remainingWords (fst (handleSubmitGroup s ws)) = remainingWords s \<and>
         puzzle (fst (handleSubmitGroup s ws)) = puzzle s"
  using assms
  by (auto simp: handleSubmitGroup_def invalidFeedback_def Let_def split: option.splits if_splits)

text \<open>
  The invariant \<open>found_removed\<close> holds after \<^verbatim>\<open>reset\<close> and is kept by every
  \<^verbatim>\<open>step\<close>; under it the words of a found group are never accepted again.
\<close>

lemma handleSubmitGroup_found_removed:
  assumes "found_removed s"
  shows "found_removed (fst (handleSubmitGroup s ws))"
proof -
  have "cf_result (snd (handleSubmitGroup s ws)) \<in> {invalid_action, correct, incorrect}"
    unfolding handleSubmitGroup_result by simp
  then consider (inv) "cf_result (snd (handleSubmitGroup s ws)) = invalid_action"
    | (cor) "cf_result (snd (handleSubmitGroup s ws)) = correct"
    | (inc) "cf_result (snd (handleSubmitGroup s ws)) = incorrect"
    by blast
  then show ?thesis
  proof cases
    case inv
    with assms show ?thesis by (simp add: handleSubmitGroup_invalid_state)
  next
    case cor
    from handleSubmitGroup_correct_state [OF cor] obtain g where
      "foundGroups (fst (handleSubmitGroup s ws)) = foundGroups s @ [g]"
      "remainingWords (fst (handleSubmitGroup s ws)) =
         filter (\<lambda>w. normalizeWord w \<notin> set (normalizedGroup g)) (remainingWords s)"
      by blast
    with assms show ?thesis by (auto simp: found_removed_def)
  next
    case inc
    with assms handleSubmitGroup_incorrect_state [OF inc] show ?thesis
      by (simp add: found_removed_def)
  qed
qed

lemma Connections_step_found_removed:
  assumes "found_removed s" and "Connections_step (Some s) a = (env', r)"
  shows "\<exists>s'. env' = Some s' \<and> found_removed s'"
proof (cases "c_done s")
  case True
  with assms show ?thesis by (auto simp: Connections_step_finished)
next
  case False
  from Connections_step_running [OF False, of a] assms(2) obtain s1 fb where
    hf: "(s1, fb) = (case a of give_up \<Rightarrow> Connections_handleGiveUp s
                     | submit_group ws \<Rightarrow> handleSubmitGroup s ws
                     | unknown_action \<Rightarrow> (s, invalidFeedback MsgUnknownAction))"
    and env': "env' = Some (s1\<lparr> c_history := c_history s1 @
                         [\<lparr> ch_stepIndex = length (c_history s1), ch_action = a, ch_feedback = fb \<rparr>],
                       c_stateVersion := c_stateVersion s1 + 1 \<rparr>)"
    by auto
  have "found_removed s1"
  proof (cases a)
    case (submit_group ws)
    with hf have "s1 = fst (handleSubmitGroup s ws)" by (simp add: prod_eq_iff)
    with handleSubmitGroup_found_removed [OF assms(1), of ws] show ?thesis by simp
  next
    case give_up
    with hf assms(1) show ?thesis by (auto simp: Connections_handleGiveUp_def found_removed_def)
  next
    case unknown_action
    with hf assms(1) show ?thesis by auto
  qed
  with env' show ?thesis by (simp add: found_removed_def)
qed

lemma Connections_steps_found_removed:
  "found_removed s \<Longrightarrow> Connections_steps (Some s) as = (env', rs) \<Longrightarrow>
     \<exists>s'. env' = Some s' \<and> found_removed s'"
proof (induction as arbitrary: s env' rs)
  case Nil
  then show ?case by auto
next
  case (Cons a as)
  obtain env1 r where st: "Connections_step (Some s) a = (env1, r)"
    by (cases "Connections_step (Some s) a")
  obtain env2 rs2 where sts: "Connections_steps env1 as = (env2, rs2)"
    by (cases "Connections_steps env1 as")
  from Cons.prems(2) st sts have e: "env' = env2" by simp
  from Connections_step_found_removed [OF Cons.prems(1) st] obtain s1 where
    s1: "env1 = Some s1" "found_removed s1" by blast
  from Cons.IH [OF s1(2), of env2 rs2] sts s1(1) e show ?case by simp
qed

lemma reset_found_removed:
  "\<exists>s'. fst (Connections_steps (Connections_reset p sh) as) = Some s' \<and> found_removed s'"
proof -
  have "Connections_steps (Connections_reset p sh) as =
          (fst (Connections_steps (Connections_reset p sh) as),
           snd (Connections_steps (Connections_reset p sh) as))" by simp
  then show ?thesis
    unfolding Connections_reset_def
    by (rule Connections_steps_found_removed [rotated]) (simp add: found_removed_def)
qed




subsection \<open>The one-away flag\<close>

lemma oneAwayLoop_iff:
  "oneAwayLoop gs found ns =
     (\<exists>g \<in> set gs. (\<forall>fg \<in> set found. category fg \<noteq> category g) \<and> length (matches g ns) = 3)"
  by (induction gs) (auto simp: list_ex_iff)


lemma matches_card:
  "distinct ns \<Longrightarrow>
     length (matches g ns) = card {w \<in> set ns. w \<in> set (map normalizeWord (group_words g))}"
proof -
  assume d: "distinct ns"
  then have "distinct (matches g ns)" by (simp add: matches_def)
  then have "length (matches g ns) = card (set (matches g ns))" by (simp add: distinct_card)
  then show ?thesis by (simp add: matches_def normalizedGroup_def)
qed

text \<open>
  The found groups are always groups of the puzzle: this holds after \<^verbatim>\<open>reset\<close> and
  is kept by every \<^verbatim>\<open>step\<close>.
\<close>

lemma handleSubmitGroup_found_subset:
  assumes "set (foundGroups s) \<subseteq> set (groups (puzzle s))"
  shows "set (foundGroups (fst (handleSubmitGroup s ws))) \<subseteq> set (groups (puzzle s)) \<and>
         puzzle (fst (handleSubmitGroup s ws)) = puzzle s"
proof -
  have "cf_result (snd (handleSubmitGroup s ws)) \<in> {invalid_action, correct, incorrect}"
    unfolding handleSubmitGroup_result by simp
  then consider (inv) "cf_result (snd (handleSubmitGroup s ws)) = invalid_action"
    | (cor) "cf_result (snd (handleSubmitGroup s ws)) = correct"
    | (inc) "cf_result (snd (handleSubmitGroup s ws)) = incorrect"
    by blast
  then show ?thesis
  proof cases
    case inv
    with assms show ?thesis by (simp add: handleSubmitGroup_invalid_state)
  next
    case cor
    from handleSubmitGroup_correct_state [OF cor] obtain g where
      "matchLoop (groups (puzzle s)) (map normalizeWord ws) = Some g"
      "foundGroups (fst (handleSubmitGroup s ws)) = foundGroups s @ [g]"
      "puzzle (fst (handleSubmitGroup s ws)) = puzzle s"
      by blast
    with assms matchLoop_Some show ?thesis by auto
  next
    case inc
    with assms handleSubmitGroup_incorrect_state [OF inc] show ?thesis by simp
  qed
qed

lemma Connections_step_found_subset:
  assumes "set (foundGroups s) \<subseteq> set (groups (puzzle s))"
    and "Connections_step (Some s) a = (env', r)"
  shows "\<exists>s'. env' = Some s' \<and> set (foundGroups s') \<subseteq> set (groups (puzzle s'))"
proof (cases "c_done s")
  case True
  with assms show ?thesis by (auto simp: Connections_step_finished)
next
  case False
  from Connections_step_running [OF False, of a] assms(2) obtain s1 fb where
    hf: "(s1, fb) = (case a of give_up \<Rightarrow> Connections_handleGiveUp s
                     | submit_group ws \<Rightarrow> handleSubmitGroup s ws
                     | unknown_action \<Rightarrow> (s, invalidFeedback MsgUnknownAction))"
    and env': "env' = Some (s1\<lparr> c_history := c_history s1 @
                         [\<lparr> ch_stepIndex = length (c_history s1), ch_action = a, ch_feedback = fb \<rparr>],
                       c_stateVersion := c_stateVersion s1 + 1 \<rparr>)"
    by auto
  have "set (foundGroups s1) \<subseteq> set (groups (puzzle s1))"
  proof (cases a)
    case (submit_group ws)
    with hf have "s1 = fst (handleSubmitGroup s ws)" by (simp add: prod_eq_iff)
    with handleSubmitGroup_found_subset [OF assms(1), of ws] show ?thesis by simp
  next
    case give_up
    with hf assms(1) show ?thesis by (auto simp: Connections_handleGiveUp_def)
  next
    case unknown_action
    with hf assms(1) show ?thesis by auto
  qed
  with env' show ?thesis by simp
qed

lemma Connections_steps_found_subset:
  "set (foundGroups s) \<subseteq> set (groups (puzzle s)) \<Longrightarrow>
     Connections_steps (Some s) as = (env', rs) \<Longrightarrow>
     \<exists>s'. env' = Some s' \<and> set (foundGroups s') \<subseteq> set (groups (puzzle s'))"
proof (induction as arbitrary: s env' rs)
  case Nil
  then show ?case by auto
next
  case (Cons a as)
  obtain env1 r where st: "Connections_step (Some s) a = (env1, r)"
    by (cases "Connections_step (Some s) a")
  obtain env2 rs2 where sts: "Connections_steps env1 as = (env2, rs2)"
    by (cases "Connections_steps env1 as")
  from Cons.prems(2) st sts have e: "env' = env2" by simp
  from Connections_step_found_subset [OF Cons.prems(1) st] obtain s1 where
    s1: "env1 = Some s1" "set (foundGroups s1) \<subseteq> set (groups (puzzle s1))" by blast
  from Cons.IH [OF s1(2), of env2 rs2] sts s1(1) e show ?case by simp
qed

lemma reset_found_subset:
  "\<exists>s'. fst (Connections_steps (Connections_reset p sh) as) = Some s' \<and>
        set (foundGroups s') \<subseteq> set (groups (puzzle s'))"
proof -
  have "Connections_steps (Connections_reset p sh) as =
          (fst (Connections_steps (Connections_reset p sh) as),
           snd (Connections_steps (Connections_reset p sh) as))" by simp
  then show ?thesis
    unfolding Connections_reset_def
    by (rule Connections_steps_found_subset [rotated]) simp
qed

text \<open>
  Whatever the labels of the puzzle, the flag is raised only for a group that is not
  among the found groups.
\<close>

lemma one_away_only_for_unfound_group:
  assumes dist: "distinct (map normalizeWord ws)"
    and flag: "cf_oneAway (snd (handleSubmitGroup s ws)) = Some True"
  shows "cf_result (snd (handleSubmitGroup s ws)) = incorrect \<and>
         (\<exists>g \<in> set (groups (puzzle s)). g \<notin> set (foundGroups s) \<and>
            card {w \<in> set (map normalizeWord ws). w \<in> set (map normalizeWord (group_words g))} = 3)"
proof -
  from flag have inc: "cf_result (snd (handleSubmitGroup s ws)) = incorrect"
    by (auto simp: handleSubmitGroup_def invalidFeedback_def Let_def split: option.splits if_splits)
  from handleSubmitGroup_incorrect_state [OF inc] flag
  have "oneAwayLoop (groups (puzzle s)) (foundGroups s) (map normalizeWord ws)" by simp
  then obtain g where g: "g \<in> set (groups (puzzle s))"
    "\<forall>fg \<in> set (foundGroups s). category fg \<noteq> category g"
    "length (matches g (map normalizeWord ws)) = 3"
    unfolding oneAwayLoop_iff by blast
  from g(2) have "g \<notin> set (foundGroups s)" by blast
  with g(1,3) matches_card [OF dist, of g] inc show ?thesis by auto
qed



subsection \<open>The mistake budget\<close>

lemma handleSubmitGroup_mistakes_other:
  "cf_result (snd (handleSubmitGroup s ws)) \<noteq> incorrect \<Longrightarrow>
     mistakesLeft (fst (handleSubmitGroup s ws)) = mistakesLeft s"
  by (auto simp: handleSubmitGroup_def invalidFeedback_def Let_def split: option.splits if_splits)

lemma handleSubmitGroup_incorrect_terminal:
  assumes "cf_result (snd (handleSubmitGroup s ws)) = incorrect"
  shows "(mistakesLeft s - 1 \<le> 0 \<longrightarrow>
            c_done (fst (handleSubmitGroup s ws)) \<and> c_status (fst (handleSubmitGroup s ws)) = fail \<and>
            cf_done (snd (handleSubmitGroup s ws)) \<and> cf_status (snd (handleSubmitGroup s ws)) = Some fail) \<and>
         (0 < mistakesLeft s - 1 \<longrightarrow>
            c_done (fst (handleSubmitGroup s ws)) = c_done s \<and>
            c_status (fst (handleSubmitGroup s ws)) = c_status s \<and>
            \<not> cf_done (snd (handleSubmitGroup s ws)))"
  using assms
  by (auto simp: handleSubmitGroup_def invalidFeedback_def Let_def split: option.splits if_splits)

lemma Connections_step_mistakes:
  assumes inv: "mistakes_inv s" and st: "Connections_step (Some s) a = (env', r)"
  shows "\<exists>s'. env' = Some s' \<and> mistakes_inv s' \<and>
           mistakesLeft s' = mistakesLeft s - (if isIncorrect r then 1 else 0)"
proof (cases "c_done s")
  case True
  with st inv show ?thesis by (auto simp: Connections_step_finished isIncorrect_def)
next
  case False
  with inv have pos: "0 < mistakesLeft s" by (auto simp: mistakes_inv_def)
  from Connections_step_running [OF False, of a] st obtain s1 fb where
    hf: "(s1, fb) = (case a of give_up \<Rightarrow> Connections_handleGiveUp s
                     | submit_group ws \<Rightarrow> handleSubmitGroup s ws
                     | unknown_action \<Rightarrow> (s, invalidFeedback MsgUnknownAction))"
    and env': "env' = Some (s1\<lparr> c_history := c_history s1 @
                         [\<lparr> ch_stepIndex = length (c_history s1), ch_action = a, ch_feedback = fb \<rparr>],
                       c_stateVersion := c_stateVersion s1 + 1 \<rparr>)"
    and r: "r = Inr fb"
    by auto
  have "mistakes_inv s1 \<and> mistakesLeft s1 = mistakesLeft s - (if cf_result fb = incorrect then 1 else 0)"
  proof (cases a)
    case (submit_group ws)
    with hf have s1: "s1 = fst (handleSubmitGroup s ws)" and fb: "fb = snd (handleSubmitGroup s ws)"
      by (simp_all add: prod_eq_iff)
    show ?thesis
    proof (cases "cf_result fb = incorrect")
      case True
      with fb handleSubmitGroup_incorrect_state [of s ws] handleSubmitGroup_incorrect_terminal [of s ws]
        pos s1
      show ?thesis by (auto simp: mistakes_inv_def)
    next
      case False
      with fb handleSubmitGroup_mistakes_other [of s ws] pos s1
      show ?thesis by (auto simp: mistakes_inv_def)
    qed
  next
    case give_up
    with hf pos show ?thesis by (auto simp: Connections_handleGiveUp_def mistakes_inv_def)
  next
    case unknown_action
    with hf pos inv show ?thesis by (auto simp: invalidFeedback_def mistakes_inv_def)
  qed
  with env' r show ?thesis by (auto simp: mistakes_inv_def isIncorrect_def)
qed

lemma Connections_steps_mistakes:
  "mistakes_inv s \<Longrightarrow> Connections_steps (Some s) as = (env', rs) \<Longrightarrow>
     \<exists>s'. env' = Some s' \<and> mistakes_inv s' \<and>
          mistakesLeft s' = mistakesLeft s - int (incorrectCount rs)"
proof (induction as arbitrary: s env' rs)
  case Nil
  then show ?case by (auto simp: incorrectCount_def)
next
  case (Cons a as)
  obtain env1 r where st: "Connections_step (Some s) a = (env1, r)" by (cases "Connections_step (Some s) a")
  obtain env2 rs2 where sts: "Connections_steps env1 as = (env2, rs2)" by (cases "Connections_steps env1 as")
  from Cons.prems(2) st sts have e: "env' = env2" and rs: "rs = r # rs2" by simp_all
  from Connections_step_mistakes [OF Cons.prems(1) st] obtain s1 where
    s1: "env1 = Some s1" "mistakes_inv s1"
    "mistakesLeft s1 = mistakesLeft s - (if isIncorrect r then 1 else 0)" by blast
  from Cons.IH [OF s1(2), of env2 rs2] sts s1(1) obtain s' where
    "env2 = Some s'" "mistakes_inv s'" "mistakesLeft s' = mistakesLeft s1 - int (incorrectCount rs2)"
    by blast
  with s1(3) e rs show ?case by (auto simp: incorrectCount_def)
qed


lemma mistakes_inv_reset:
  "Connections_reset p sh = Some s \<Longrightarrow> mistakes_inv s \<and> mistakesLeft s = 4"
  by (auto simp: Connections_reset_def mistakes_inv_def)

text \<open>
  Claim C4. An \<open>incorrect\<close> submission lowers \<open>mistakesLeft\<close> by exactly one, any other
  outcome of \<open>handleSubmitGroup\<close> leaves it alone, and when the counter reaches zero the
  state is terminal with status \<open>fail\<close> and the feedback says \<open>done\<close>. Hence, for every
  sequence of actions after \<^verbatim>\<open>reset\<close> (four mistakes allowed), the counter is four minus
  the number of \<open>incorrect\<close> outcomes, there are never more than four of them, and once
  there are four the state is terminal \<open>fail\<close> and any further \<^verbatim>\<open>step\<close> throws.
\<close>

theorem four_incorrect_then_fail:
  "(cf_result (snd (handleSubmitGroup s ws)) = incorrect \<longrightarrow>
      mistakesLeft (fst (handleSubmitGroup s ws)) = mistakesLeft s - 1 \<and>
      (mistakesLeft (fst (handleSubmitGroup s ws)) \<le> 0 \<longrightarrow>
         c_done (fst (handleSubmitGroup s ws)) \<and> c_status (fst (handleSubmitGroup s ws)) = fail \<and>
         cf_done (snd (handleSubmitGroup s ws)) \<and>
         cf_status (snd (handleSubmitGroup s ws)) = Some fail)) \<and>
   (cf_result (snd (handleSubmitGroup s ws)) \<noteq> incorrect \<longrightarrow>
      mistakesLeft (fst (handleSubmitGroup s ws)) = mistakesLeft s) \<and>
   (\<exists>s'. fst (Connections_steps (Connections_reset p sh) acts) = Some s' \<and>
      mistakesLeft s' = 4 - int (incorrectCount (snd (Connections_steps (Connections_reset p sh) acts))) \<and>
      incorrectCount (snd (Connections_steps (Connections_reset p sh) acts)) \<le> 4 \<and>
      (incorrectCount (snd (Connections_steps (Connections_reset p sh) acts)) = 4 \<longrightarrow>
         c_done s' \<and> c_status s' = fail \<and>
         Connections_step (Some s') a = (Some s', Inl AlreadyFinished)))"
proof -
  let ?r = "handleSubmitGroup s ws"
  have A: "cf_result (snd ?r) = incorrect \<longrightarrow>
      mistakesLeft (fst ?r) = mistakesLeft s - 1 \<and>
      (mistakesLeft (fst ?r) \<le> 0 \<longrightarrow>
         c_done (fst ?r) \<and> c_status (fst ?r) = fail \<and> cf_done (snd ?r) \<and>
         cf_status (snd ?r) = Some fail)"
    using handleSubmitGroup_incorrect_state [of s ws] handleSubmitGroup_incorrect_terminal [of s ws]
    by simp
  have B: "cf_result (snd ?r) \<noteq> incorrect \<longrightarrow> mistakesLeft (fst ?r) = mistakesLeft s"
    by (simp add: handleSubmitGroup_mistakes_other)
  obtain s0 where s0: "Connections_reset p sh = Some s0"
    by (simp add: Connections_reset_def)
  let ?run = "Connections_steps (Connections_reset p sh) acts"
  from mistakes_inv_reset [OF s0] have inv0: "mistakes_inv s0" and m0: "mistakesLeft s0 = 4"
    by simp_all
  have "?run = (fst ?run, snd ?run)" by simp
  with s0 have "Connections_steps (Some s0) acts = (fst ?run, snd ?run)" by simp
  from Connections_steps_mistakes [OF inv0 this] m0 obtain s' where
    s': "fst ?run = Some s'" "mistakes_inv s'"
    "mistakesLeft s' = 4 - int (incorrectCount (snd ?run))" by auto
  from s'(2,3) have le: "incorrectCount (snd ?run) \<le> 4" by (simp add: mistakes_inv_def)
  have fin: "c_done s' \<and> c_status s' = fail \<and>
      Connections_step (Some s') a = (Some s', Inl AlreadyFinished)"
    if "incorrectCount (snd ?run) = 4"
    using that s'(2,3) by (simp add: mistakes_inv_def Connections_step_finished)
  from A B s'(1,3) le fin show ?thesis by blast
qed

theorem four_incorrect_then_fail_witness:
  "incorrectCount (snd (Connections_steps (Connections_reset samplePuzzle (puzzle_words samplePuzzle))
      (replicate 4 (submit_group [''HAIL'', ''BUCKS'', ''OPTION'', ''KAYAK''])))) = 4 \<and>
   (\<exists>s'. fst (Connections_steps (Connections_reset samplePuzzle (puzzle_words samplePuzzle))
             (replicate 4 (submit_group [''HAIL'', ''BUCKS'', ''OPTION'', ''KAYAK'']))) = Some s' \<and>
      c_done s' \<and> c_status s' = fail \<and>
      Connections_step (Some s') (submit_group [''HAIL'', ''BUCKS'', ''OPTION'', ''KAYAK'']) =
        (Some s', Inl AlreadyFinished))"
proof -
  let ?acts = "replicate 4 (submit_group [''HAIL'', ''BUCKS'', ''OPTION'', ''KAYAK''])"
  let ?run = "Connections_steps (Connections_reset samplePuzzle (puzzle_words samplePuzzle)) ?acts"
  have four: "incorrectCount (snd ?run) = 4" by code_simp
  from four_incorrect_then_fail [of sampleState "[]" samplePuzzle "puzzle_words samplePuzzle" ?acts
      "submit_group [''HAIL'', ''BUCKS'', ''OPTION'', ''KAYAK'']"] four
  show ?thesis by blast
qed

section \<open>Properties of the grid game\<close>

subsection \<open>Submitting the puzzle\<close>

lemma submitLoop_filter:
  "submitLoop is g sol acc =
     acc @ filter (\<lambda>i. at sol i \<noteq> Some ''#'' \<and> fillAt g i \<noteq> at sol i) is"
  by (induction "is" arbitrary: acc) auto

text \<open>
  Claim C5. \<open>handleSubmitPuzzle\<close> always ends the game. The cells compared are those
  below \<^verbatim>\<open>fillGrid.length\<close> whose solution cell is not the block \<^verbatim>\<open>"#"\<close>. If each of
  them holds its solution letter, the status is \<open>success_with_reveals\<close> when the set of
  revealed cells is not empty and \<open>success_clean\<close> when it is. If one of them differs (an
  empty cell differs), the status is \<open>fail\<close> and the feedback carries the differing
  indices, each once and in increasing order.
\<close>

theorem submit_puzzle_classification:
  "xf_result (snd (handleSubmitPuzzle s)) = submitted \<and>
   x_done (fst (handleSubmitPuzzle s)) \<and> xf_done (snd (handleSubmitPuzzle s)) \<and>
   xf_status (snd (handleSubmitPuzzle s)) = Some (x_status (fst (handleSubmitPuzzle s))) \<and>
   ((\<forall>i < length (fillGrid s).
        at (solution_grid (x_puzzle s)) i \<noteq> Some ''#'' \<longrightarrow>
        fillAt (fillGrid s) i = at (solution_grid (x_puzzle s)) i) \<longrightarrow>
      x_status (fst (handleSubmitPuzzle s)) =
        (if revealedCells s \<noteq> {} then success_with_reveals else success_clean) \<and>
      xf_success (snd (handleSubmitPuzzle s)) = Some True \<and>
      xf_incorrectCells (snd (handleSubmitPuzzle s)) = None) \<and>
   ((\<exists>i < length (fillGrid s).
        at (solution_grid (x_puzzle s)) i \<noteq> Some ''#'' \<and>
        fillAt (fillGrid s) i \<noteq> at (solution_grid (x_puzzle s)) i) \<longrightarrow>
      x_status (fst (handleSubmitPuzzle s)) = fail \<and>
      xf_success (snd (handleSubmitPuzzle s)) = Some False \<and>
      (\<exists>cs. xf_incorrectCells (snd (handleSubmitPuzzle s)) = Some cs \<and> sorted cs \<and> distinct cs \<and>
         set cs = {i. i < length (fillGrid s) \<and>
                      at (solution_grid (x_puzzle s)) i \<noteq> Some ''#'' \<and>
                      fillAt (fillGrid s) i \<noteq> at (solution_grid (x_puzzle s)) i}))"
proof -
  let ?sol = "solution_grid (x_puzzle s)"
  let ?bad = "\<lambda>i. at ?sol i \<noteq> Some ''#'' \<and> fillAt (fillGrid s) i \<noteq> at ?sol i"
  let ?cs = "filter ?bad [0 ..< length (fillGrid s)]"
  have loop: "submitLoop [0 ..< length (fillGrid s)] (fillGrid s) ?sol [] = ?cs"
    by (simp add: submitLoop_filter)
  have set_cs: "set ?cs = {i. i < length (fillGrid s) \<and> ?bad i}" by auto
  have sd: "sorted ?cs \<and> distinct ?cs" by (simp add: sorted_wrt_filter)
  have empty: "(?cs = []) = (\<forall>i < length (fillGrid s). at ?sol i \<noteq> Some ''#'' \<longrightarrow>
        fillAt (fillGrid s) i = at ?sol i)"
    by (auto simp: filter_empty_conv)
  show ?thesis
  proof (cases "?cs = []")
    case True
    with empty loop show ?thesis
      by (auto simp: handleSubmitPuzzle_def Let_def)
  next
    case False
    with empty loop set_cs sd show ?thesis
      by (auto simp: handleSubmitPuzzle_def Let_def)
  qed
qed

theorem submit_puzzle_classification_witness:
  "x_status (fst (handleSubmitPuzzle solvedCrosswordState)) = success_clean \<and>
   x_status (fst (handleSubmitPuzzle (solvedCrosswordState\<lparr> revealedCells := {0} \<rparr>))) =
     success_with_reveals \<and>
   x_status (fst (handleSubmitPuzzle cotCrosswordState)) = fail \<and>
   xf_incorrectCells (snd (handleSubmitPuzzle cotCrosswordState)) = Some [1, 3, 5, 6, 7, 8]"
proof -
  let ?rev = "solvedCrosswordState\<lparr> revealedCells := {0} \<rparr>"
  have "\<forall>i \<in> set [0 ..< length (fillGrid solvedCrosswordState)].
          at (solution_grid (x_puzzle solvedCrosswordState)) i \<noteq> Some ''#'' \<longrightarrow>
          fillAt (fillGrid solvedCrosswordState) i = at (solution_grid (x_puzzle solvedCrosswordState)) i"
    by code_simp
  then have all1: "\<forall>i < length (fillGrid solvedCrosswordState).
          at (solution_grid (x_puzzle solvedCrosswordState)) i \<noteq> Some ''#'' \<longrightarrow>
          fillAt (fillGrid solvedCrosswordState) i = at (solution_grid (x_puzzle solvedCrosswordState)) i"
    by simp
  then have all2: "\<forall>i < length (fillGrid ?rev).
          at (solution_grid (x_puzzle ?rev)) i \<noteq> Some ''#'' \<longrightarrow>
          fillAt (fillGrid ?rev) i = at (solution_grid (x_puzzle ?rev)) i"
    by simp
  have rev1: "revealedCells solvedCrosswordState = {}" by code_simp
  have rev2: "revealedCells ?rev \<noteq> {}" by simp
  have "1 < length (fillGrid cotCrosswordState) \<and>
        at (solution_grid (x_puzzle cotCrosswordState)) 1 \<noteq> Some ''#'' \<and>
        fillAt (fillGrid cotCrosswordState) 1 \<noteq> at (solution_grid (x_puzzle cotCrosswordState)) 1"
    by code_simp
  then have ex: "\<exists>i < length (fillGrid cotCrosswordState).
        at (solution_grid (x_puzzle cotCrosswordState)) i \<noteq> Some ''#'' \<and>
        fillAt (fillGrid cotCrosswordState) i \<noteq> at (solution_grid (x_puzzle cotCrosswordState)) i"
    by blast
  have cells: "xf_incorrectCells (snd (handleSubmitPuzzle cotCrosswordState)) = Some [1, 3, 5, 6, 7, 8]"
    by code_simp
  from submit_puzzle_classification [of solvedCrosswordState] all1 rev1
  have a: "x_status (fst (handleSubmitPuzzle solvedCrosswordState)) = success_clean"
    by presburger
  from submit_puzzle_classification [of ?rev] all2 rev2
  have b: "x_status (fst (handleSubmitPuzzle ?rev)) = success_with_reveals"
    by presburger
  from submit_puzzle_classification [of cotCrosswordState] ex
  have c: "x_status (fst (handleSubmitPuzzle cotCrosswordState)) = fail"
    by presburger
  from a b c cells show ?thesis by simp
qed

subsection \<open>Checking an entry\<close>

lemma notFilledLoop_iff:
  "notFilledLoop cs g = (\<exists>c \<in> set cs. fillAt g c = Some ''.'')"
  by (induction cs) auto

lemma checkLoop_props:
  "checkLoop cs g sol (w, n, cw) = (w', n', cw') \<Longrightarrow>
     w' = w @ filter (\<lambda>c. fillAt g c \<noteq> at sol c) cs \<and>
     cw' = cw \<union> {c \<in> set cs. fillAt g c \<noteq> at sol c} \<and>
     set n' = set n \<union> ({c \<in> set cs. fillAt g c \<noteq> at sol c} - cw) \<and>
     (distinct n \<longrightarrow> set n \<subseteq> cw \<longrightarrow> distinct n')"
proof (induction cs arbitrary: w n cw)
  case Nil
  then show ?case by simp
next
  case (Cons c cs)
  show ?case
  proof (cases "fillAt g c \<noteq> at sol c")
    case False
    with Cons.prems have "checkLoop cs g sol (w, n, cw) = (w', n', cw')" by simp
    from Cons.IH [OF this] False show ?thesis by auto
  next
    case diff: True
    show ?thesis
    proof (cases "c \<in> cw")
      case True
      with diff Cons.prems have "checkLoop cs g sol (w @ [c], n, cw) = (w', n', cw')" by simp
      from Cons.IH [OF this] diff True show ?thesis by auto
    next
      case False
      with diff Cons.prems
      have "checkLoop cs g sol (w @ [c], n @ [c], insert c cw) = (w', n', cw')" by simp
      from Cons.IH [OF this] diff False show ?thesis by auto
    qed
  qed
qed

lemma checkLoop_cong:
  "\<forall>c \<in> set cs. (fillAt g c = at sol2 c) = (fillAt g c = at sol c) \<Longrightarrow>
     checkLoop cs g sol2 acc = checkLoop cs g sol acc"
proof (induction cs arbitrary: acc)
  case Nil
  then show ?case by simp
next
  case (Cons c cs)
  obtain w n cw where acc: "acc = (w, n, cw)" by (cases acc)
  from Cons.prems have here: "(fillAt g c = at sol2 c) = (fillAt g c = at sol c)"
    and rest: "\<forall>c \<in> set cs. (fillAt g c = at sol2 c) = (fillAt g c = at sol c)" by simp_all
  from Cons.IH [OF rest] here acc show ?case by simp
qed

lemma handleCheckEntry_invalid_iff:
  "(xf_result (snd (handleCheckEntry s d n)) = invalid_action) =
     (\<not> allowChecks (config s) \<or> clueMap s (d, n) = None \<or>
      (\<exists>clue. clueMap s (d, n) = Some clue \<and>
         (\<exists>c \<in> set (cells clue). fillAt (fillGrid s) c = Some ''.'')))"
  by (auto simp: handleCheckEntry_def xInvalid_def Let_def notFilledLoop_iff
           split: option.splits prod.splits)

lemma handleCheckEntry_invalid_state:
  "xf_result (snd (handleCheckEntry s d n)) = invalid_action \<Longrightarrow> fst (handleCheckEntry s d n) = s"
  by (auto simp: handleCheckEntry_def xInvalid_def Let_def split: option.splits prod.splits if_splits)

lemma handleCheckEntry_checked:
  assumes ok: "xf_result (snd (handleCheckEntry s d n)) \<noteq> invalid_action"
  shows "\<exists>clue newly. clueMap s (d, n) = Some clue \<and>
     xf_result (snd (handleCheckEntry s d n)) = checked \<and>
     xf_wrongCells (snd (handleCheckEntry s d n)) =
       Some (filter (\<lambda>c. fillAt (fillGrid s) c \<noteq> at (solution_grid (x_puzzle s)) c) (cells clue)) \<and>
     xf_newlyWrongCells (snd (handleCheckEntry s d n)) = Some newly \<and>
     distinct newly \<and>
     set newly = {c \<in> set (cells clue). fillAt (fillGrid s) c \<noteq> at (solution_grid (x_puzzle s)) c}
                   - checkedWrongCells s \<and>
     fst (handleCheckEntry s d n) =
       s\<lparr> checkedWrongCells := checkedWrongCells s \<union>
             {c \<in> set (cells clue). fillAt (fillGrid s) c \<noteq> at (solution_grid (x_puzzle s)) c},
          checksPerformed := checksPerformed s + 1 \<rparr>"
proof -
  from ok handleCheckEntry_invalid_iff [of s d n]
  have allow: "allowChecks (config s)" and some: "clueMap s (d, n) \<noteq> None"
    and nodot: "\<forall>clue. clueMap s (d, n) = Some clue \<longrightarrow>
                 \<not> (\<exists>c \<in> set (cells clue). fillAt (fillGrid s) c = Some ''.'')"
    by auto
  from some obtain clue where clue: "clueMap s (d, n) = Some clue" by auto
  with nodot have full: "\<not> notFilledLoop (cells clue) (fillGrid s)"
    by (simp add: notFilledLoop_iff)
  obtain w nw cw where loop:
    "checkLoop (cells clue) (fillGrid s) (solution_grid (x_puzzle s)) ([], [], checkedWrongCells s)
       = (w, nw, cw)"
    by (cases "checkLoop (cells clue) (fillGrid s) (solution_grid (x_puzzle s))
                 ([], [], checkedWrongCells s)")
  from checkLoop_props [OF loop]
  have w: "w = filter (\<lambda>c. fillAt (fillGrid s) c \<noteq> at (solution_grid (x_puzzle s)) c) (cells clue)"
    and cw: "cw = checkedWrongCells s \<union>
               {c \<in> set (cells clue). fillAt (fillGrid s) c \<noteq> at (solution_grid (x_puzzle s)) c}"
    and nw: "set nw = {c \<in> set (cells clue). fillAt (fillGrid s) c \<noteq> at (solution_grid (x_puzzle s)) c}
               - checkedWrongCells s"
    and dn: "distinct nw"
    by simp_all
  show ?thesis
  proof (cases "w = []")
    case True
    have "{c \<in> set (cells clue). fillAt (fillGrid s) c \<noteq> at (solution_grid (x_puzzle s)) c} = set w"
      unfolding w by auto
    with True nw have "set nw = {}" by simp
    then have nil: "nw = []" by simp
    have none: "{c \<in> set (cells clue). fillAt (fillGrid s) c \<noteq> at (solution_grid (x_puzzle s)) c} = {}"
      using True w by (auto simp: filter_empty_conv)
    from True nil allow clue full loop w cw show ?thesis
      by (simp add: handleCheckEntry_def Let_def none)
  next
    case False
    with allow clue full loop w cw nw dn show ?thesis
      by (simp add: handleCheckEntry_def Let_def)
  qed
qed

lemma handleCheckEntry_feedback_cong:
  assumes clue: "clueMap s (d, n) = Some clue"
    and same: "\<forall>c \<in> set (cells clue).
        (fillAt (fillGrid s) c = at sol2 c) = (fillAt (fillGrid s) c = at (solution_grid (x_puzzle s)) c)"
  shows "snd (handleCheckEntry (s\<lparr> x_puzzle := (x_puzzle s)\<lparr> solution_grid := sol2 \<rparr> \<rparr>) d n) =
         snd (handleCheckEntry s d n)"
  using clue checkLoop_cong [OF same]
  by (simp add: handleCheckEntry_def Let_def split: prod.splits)


text \<open>
  Claim C6. \<open>handleCheckEntry\<close> answers \<open>invalid_action\<close>, with the state as it was,
  exactly when checks are disabled, the clue does not exist, or a cell of the clue is
  still \<^verbatim>\<open>"."\<close>. Otherwise the outcome is \<open>checked\<close>: \<open>wrongCells\<close> lists the clue's cells
  whose fill differs from the solution, \<open>newlyWrongCells\<close> holds exactly those of them
  that were not known wrong before (each once), all wrong cells are now known wrong, the
  check counter went up by one and nothing else changed. A fully correct entry gives no
  wrong cell. The feedback holds cell indices, the direction, the number and a count
  only: replacing the solution by any other solution that agrees with it on which cells
  of the clue are right gives the same feedback.
\<close>

theorem check_entry_contract:
  "((xf_result (snd (handleCheckEntry s d n)) = invalid_action) =
      (\<not> allowChecks (config s) \<or> clueMap s (d, n) = None \<or>
       (\<exists>clue. clueMap s (d, n) = Some clue \<and>
          (\<exists>c \<in> set (cells clue). fillAt (fillGrid s) c = Some ''.'')))) \<and>
   (xf_result (snd (handleCheckEntry s d n)) = invalid_action \<longrightarrow>
      fst (handleCheckEntry s d n) = s) \<and>
   (xf_result (snd (handleCheckEntry s d n)) \<noteq> invalid_action \<longrightarrow>
      (\<exists>clue wrong newly.
         clueMap s (d, n) = Some clue \<and>
         xf_result (snd (handleCheckEntry s d n)) = checked \<and>
         wrong = filter (\<lambda>c. fillAt (fillGrid s) c \<noteq> at (solution_grid (x_puzzle s)) c) (cells clue) \<and>
         xf_wrongCells (snd (handleCheckEntry s d n)) = Some wrong \<and>
         xf_newlyWrongCells (snd (handleCheckEntry s d n)) = Some newly \<and>
         distinct newly \<and> set newly = set wrong - checkedWrongCells s \<and>
         fst (handleCheckEntry s d n) =
           s\<lparr> checkedWrongCells := checkedWrongCells s \<union> set wrong,
              checksPerformed := checksPerformed s + 1 \<rparr> \<and>
         ((\<forall>c \<in> set (cells clue). fillAt (fillGrid s) c = at (solution_grid (x_puzzle s)) c) \<longrightarrow>
            wrong = [] \<and> newly = []) \<and>
         (\<forall>sol2.
            (\<forall>c \<in> set (cells clue).
               (fillAt (fillGrid s) c = at sol2 c) =
               (fillAt (fillGrid s) c = at (solution_grid (x_puzzle s)) c)) \<longrightarrow>
            snd (handleCheckEntry (s\<lparr> x_puzzle := (x_puzzle s)\<lparr> solution_grid := sol2 \<rparr> \<rparr>) d n) =
            snd (handleCheckEntry s d n))))"
proof -
  let ?r = "handleCheckEntry s d n"
  let ?sol = "solution_grid (x_puzzle s)"
  have C: "\<exists>clue wrong newly.
         clueMap s (d, n) = Some clue \<and>
         xf_result (snd ?r) = checked \<and>
         wrong = filter (\<lambda>c. fillAt (fillGrid s) c \<noteq> at ?sol c) (cells clue) \<and>
         xf_wrongCells (snd ?r) = Some wrong \<and>
         xf_newlyWrongCells (snd ?r) = Some newly \<and>
         distinct newly \<and> set newly = set wrong - checkedWrongCells s \<and>
         fst ?r = s\<lparr> checkedWrongCells := checkedWrongCells s \<union> set wrong,
                      checksPerformed := checksPerformed s + 1 \<rparr> \<and>
         ((\<forall>c \<in> set (cells clue). fillAt (fillGrid s) c = at ?sol c) \<longrightarrow>
            wrong = [] \<and> newly = []) \<and>
         (\<forall>sol2.
            (\<forall>c \<in> set (cells clue).
               (fillAt (fillGrid s) c = at sol2 c) = (fillAt (fillGrid s) c = at ?sol c)) \<longrightarrow>
            snd (handleCheckEntry (s\<lparr> x_puzzle := (x_puzzle s)\<lparr> solution_grid := sol2 \<rparr> \<rparr>) d n) =
            snd ?r)"
    if ok: "xf_result (snd ?r) \<noteq> invalid_action"
  proof -
    from handleCheckEntry_checked [OF ok] obtain clue newly where
      clue: "clueMap s (d, n) = Some clue"
      and res: "xf_result (snd ?r) = checked"
      and wr: "xf_wrongCells (snd ?r) =
                 Some (filter (\<lambda>c. fillAt (fillGrid s) c \<noteq> at ?sol c) (cells clue))"
      and nw: "xf_newlyWrongCells (snd ?r) = Some newly" "distinct newly"
        "set newly = {c \<in> set (cells clue). fillAt (fillGrid s) c \<noteq> at ?sol c} - checkedWrongCells s"
      and st: "fst ?r = s\<lparr> checkedWrongCells := checkedWrongCells s \<union>
                 {c \<in> set (cells clue). fillAt (fillGrid s) c \<noteq> at ?sol c},
               checksPerformed := checksPerformed s + 1 \<rparr>"
      by blast
    let ?wrong = "filter (\<lambda>c. fillAt (fillGrid s) c \<noteq> at ?sol c) (cells clue)"
    have sw: "set ?wrong = {c \<in> set (cells clue). fillAt (fillGrid s) c \<noteq> at ?sol c}" by auto
    have good: "?wrong = [] \<and> newly = []"
      if "\<forall>c \<in> set (cells clue). fillAt (fillGrid s) c = at ?sol c"
    proof -
      from that have e: "{c \<in> set (cells clue). fillAt (fillGrid s) c \<noteq> at ?sol c} = {}" by auto
      with nw(3) have "set newly = {}" by simp
      moreover from that have "?wrong = []" by (simp add: filter_empty_conv)
      ultimately show ?thesis by simp
    qed
    have cong: "\<forall>sol2.
            (\<forall>c \<in> set (cells clue).
               (fillAt (fillGrid s) c = at sol2 c) = (fillAt (fillGrid s) c = at ?sol c)) \<longrightarrow>
            snd (handleCheckEntry (s\<lparr> x_puzzle := (x_puzzle s)\<lparr> solution_grid := sol2 \<rparr> \<rparr>) d n) =
            snd ?r"
      using handleCheckEntry_feedback_cong [OF clue] by blast
    from clue res wr nw(1,2) nw(3) [folded sw] st [folded sw] good cong
    show ?thesis by blast
  qed
  from handleCheckEntry_invalid_iff [of s d n] handleCheckEntry_invalid_state [of s d n] C
  show ?thesis by blast
qed

theorem check_entry_contract_witness:
  "xf_result (snd (handleCheckEntry cotCrosswordState across 1)) = checked \<and>
   xf_wrongCells (snd (handleCheckEntry cotCrosswordState across 1)) = Some [1] \<and>
   xf_newlyWrongCells (snd (handleCheckEntry cotCrosswordState across 1)) = Some [1] \<and>
   checkedWrongCells (fst (handleCheckEntry cotCrosswordState across 1)) = {1} \<and>
   checksPerformed (fst (handleCheckEntry cotCrosswordState across 1)) = 1 \<and>
   xf_result (snd (handleCheckEntry cotCrosswordState down 1)) = invalid_action \<and>
   xf_wrongCells (snd (handleCheckEntry solvedCrosswordState across 1)) = Some []"
proof -
  have ne: "xf_result (snd (handleCheckEntry cotCrosswordState across 1)) \<noteq> invalid_action"
    by code_simp
  from check_entry_contract [of cotCrosswordState across 1] ne
  have a: "xf_result (snd (handleCheckEntry cotCrosswordState across 1)) = checked"
    by blast
  have dot: "clueMap cotCrosswordState (down, 1) = Some \<lparr> clue_number = 1, clue_text = ''Taxi'',
               clue_length = 3, cells = [0, 3, 6] \<rparr> \<and>
             fillAt (fillGrid cotCrosswordState) 3 = Some ''.''"
    by code_simp
  then have "\<exists>clue. clueMap cotCrosswordState (down, 1) = Some clue \<and>
               (\<exists>c \<in> set (cells clue). fillAt (fillGrid cotCrosswordState) c = Some ''.'')"
    by auto
  with check_entry_contract [of cotCrosswordState down 1]
  have b: "xf_result (snd (handleCheckEntry cotCrosswordState down 1)) = invalid_action"
    by blast
  have c: "xf_wrongCells (snd (handleCheckEntry cotCrosswordState across 1)) = Some [1] \<and>
   xf_newlyWrongCells (snd (handleCheckEntry cotCrosswordState across 1)) = Some [1] \<and>
   checkedWrongCells (fst (handleCheckEntry cotCrosswordState across 1)) = {1} \<and>
   checksPerformed (fst (handleCheckEntry cotCrosswordState across 1)) = 1 \<and>
   xf_wrongCells (snd (handleCheckEntry solvedCrosswordState across 1)) = Some []"
    by code_simp
  from a b c show ?thesis by simp
qed

subsection \<open>Filling an entry\<close>


lemma fillLoop_wrong:
  "snd (fillLoop cs i na (g, w)) = w - set cs"
  by (induction cs arbitrary: i g w) auto



lemma normalizeAnswer_letters:
  "list_all isUpperAZ (normalizeAnswer answer)"
  by (simp add: normalizeAnswer_def list_all_iff)

lemma handleFillEntry_invalid_iff:
  "(xf_result (snd (handleFillEntry s d n answer)) = invalid_action) =
     (clueMap s (d, n) = None \<or>
      (\<exists>clue. clueMap s (d, n) = Some clue \<and>
         (int (length (normalizeAnswer answer)) \<noteq> clue_length clue \<or> normalizeAnswer answer = [])))"
  using normalizeAnswer_letters [of answer]
  by (auto simp: handleFillEntry_def xInvalid_def Let_def onlyLetters_def
           split: option.splits prod.splits)

lemma handleFillEntry_invalid_state:
  "xf_result (snd (handleFillEntry s d n answer)) = invalid_action \<Longrightarrow>
     fst (handleFillEntry s d n answer) = s"
  by (auto simp: handleFillEntry_def xInvalid_def Let_def split: option.splits prod.splits if_splits)

lemma handleFillEntry_filled:
  assumes ok: "xf_result (snd (handleFillEntry s d n answer)) \<noteq> invalid_action"
  shows "\<exists>clue. clueMap s (d, n) = Some clue \<and>
     xf_result (snd (handleFillEntry s d n answer)) = filled \<and>
     fst (handleFillEntry s d n answer) =
       s\<lparr> fillGrid := fst (fillLoop (cells clue) 0 (normalizeAnswer answer)
                            (fillGrid s, checkedWrongCells s)),
          checkedWrongCells := checkedWrongCells s - set (cells clue) \<rparr>"
proof -
  from ok handleFillEntry_invalid_iff [of s d n answer]
  obtain clue where clue: "clueMap s (d, n) = Some clue"
    and len: "int (length (normalizeAnswer answer)) = clue_length clue"
    and ne: "normalizeAnswer answer \<noteq> []"
    by auto
  from ne normalizeAnswer_letters [of answer] have ol: "onlyLetters (normalizeAnswer answer)"
    by (simp add: onlyLetters_def)
  obtain g w where loop:
    "fillLoop (cells clue) 0 (normalizeAnswer answer) (fillGrid s, checkedWrongCells s) = (g, w)"
    by (cases "fillLoop (cells clue) 0 (normalizeAnswer answer) (fillGrid s, checkedWrongCells s)")
  with fillLoop_wrong [of "cells clue" 0 "normalizeAnswer answer" "fillGrid s" "checkedWrongCells s"]
  have w: "w = checkedWrongCells s - set (cells clue)" by simp
  from clue len ol loop w show ?thesis
    by (simp add: handleFillEntry_def Let_def)
qed




section \<open>Properties of both environments\<close>

lemma Crossword_step_finished:
  "x_done t \<Longrightarrow> Crossword_step (Some t) b = (Some t, Inl AlreadyFinished)"
  by (simp add: Crossword_step_def)

lemma Connections_steps_finished:
  "c_done s \<Longrightarrow>
     Connections_steps (Some s) as = (Some s, replicate (length as) (Inl AlreadyFinished))"
  by (induction as) (simp_all add: Connections_step_finished)

lemma Crossword_steps_finished:
  "x_done t \<Longrightarrow>
     Crossword_steps (Some t) bs = (Some t, replicate (length bs) (Inl AlreadyFinished))"
  by (induction bs) (simp_all add: Crossword_step_finished)

text \<open>
  Claim C9. In both environments \<^verbatim>\<open>step\<close> throws before \<^verbatim>\<open>reset\<close> was called, and
  once the state is done it throws for every action and leaves the environment exactly
  as it was; so does every further sequence of calls.
\<close>

theorem no_step_after_terminal:
  "Connections_step None a = (None, Inl NotInitialized) \<and>
   Crossword_step None b = (None, Inl NotInitialized) \<and>
   (c_done s \<longrightarrow>
      Connections_step (Some s) a = (Some s, Inl AlreadyFinished) \<and>
      Connections_steps (Some s) as = (Some s, replicate (length as) (Inl AlreadyFinished))) \<and>
   (x_done t \<longrightarrow>
      Crossword_step (Some t) b = (Some t, Inl AlreadyFinished) \<and>
      Crossword_steps (Some t) bs = (Some t, replicate (length bs) (Inl AlreadyFinished)))"
  by (simp add: Connections_step_def Crossword_step_def Connections_steps_finished
        Crossword_steps_finished)

theorem no_step_after_terminal_witness:
  "c_done (fst (Connections_handleGiveUp sampleState)) \<and>
   Connections_step (Some (fst (Connections_handleGiveUp sampleState)))
       (submit_group [''HAIL'', ''RAIN'', ''SLEET'', ''SNOW'']) =
     (Some (fst (Connections_handleGiveUp sampleState)), Inl AlreadyFinished) \<and>
   x_done (fst (handleSubmitPuzzle solvedCrosswordState)) \<and>
   Crossword_step (Some (fst (handleSubmitPuzzle solvedCrosswordState)))
       (fill_entry across 1 ''dog'') =
     (Some (fst (handleSubmitPuzzle solvedCrosswordState)), Inl AlreadyFinished)"
proof -
  have d1: "c_done (fst (Connections_handleGiveUp sampleState))"
    by (simp add: Connections_handleGiveUp_def)
  have d2: "x_done (fst (handleSubmitPuzzle solvedCrosswordState))"
    by (simp add: handleSubmitPuzzle_def Let_def)
  from no_step_after_terminal [of "submit_group [''HAIL'', ''RAIN'', ''SLEET'', ''SNOW'']"
      "fill_entry across 1 ''dog''" "fst (Connections_handleGiveUp sampleState)" "[]"
      "fst (handleSubmitPuzzle solvedCrosswordState)" "[]"] d1 d2
  show ?thesis by blast
qed

section \<open>Properties of the step loop\<close>

subsection \<open>A run that uses up its steps\<close>

lemma recordStep_Break:
  "recordStep ops r = Break r' \<Longrightarrow>
     ops_isDone ops (run_env r') \<and> run_env r' = run_env r \<and>
     status r' = mapEnvStatus (ops_getStatus ops (run_env r)) (status r) \<and>
     invalidActions r' = invalidActions r \<and> stepsTaken r' = stepsTaken r + 1"
  by (auto simp: recordStep_def Let_def split: if_splits)

lemma recordStep_Continue:
  "recordStep ops r = Continue r' \<Longrightarrow>
     \<not> ops_isDone ops (run_env r') \<and> r' = r\<lparr> stepsTaken := stepsTaken r + 1 \<rparr>"
  by (auto simp: recordStep_def Let_def split: if_splits)

lemma stepBody_Continue:
  assumes "stepBody ops cfg reply elapsed r = Continue r'"
  shows "status r' = status r \<and> stepsTaken r' = stepsTaken r + 1 \<and>
         \<not> ops_isDone ops (run_env r') \<and> \<not> elapsed > runTimeoutMs cfg \<and>
         invalidActions r \<le> invalidActions r'"
  using assms
  by (auto simp: stepBody_def Let_def split: if_splits AgentReply.splits prod.splits sum.splits
           dest!: recordStep_Continue)

lemma stepBody_Break:
  assumes "stepBody ops cfg reply elapsed r = Break r'"
  shows "elapsed > runTimeoutMs cfg \<or>
         int (invalidActions r') \<ge> maxInvalidActions cfg \<and> status r' = run_fail \<or>
         ops_isDone ops (run_env r')"
  using assms
  by (auto simp: stepBody_def Let_def split: if_splits AgentReply.splits prod.splits sum.splits
           dest!: recordStep_Break)

lemma stepLoop_full:
  assumes "\<forall>i. int i < maxSteps cfg \<longrightarrow> elapsedAt i \<le> runTimeoutMs cfg"
    and "\<not> ops_isDone ops (run_env (stepLoop ops cfg agent elapsedAt stepIndex r))"
    and "int (invalidActions (stepLoop ops cfg agent elapsedAt stepIndex r)) < maxInvalidActions cfg"
  shows "status (stepLoop ops cfg agent elapsedAt stepIndex r) = status r \<and>
         stepsTaken (stepLoop ops cfg agent elapsedAt stepIndex r) =
           stepsTaken r + nat (maxSteps cfg - int stepIndex)"
  using assms
proof (induction ops cfg agent elapsedAt stepIndex r rule: stepLoop.induct)
  case (1 ops cfg agent elapsedAt stepIndex r)
  show ?case
  proof (cases "int stepIndex < maxSteps cfg")
    case False
    then show ?thesis by (simp add: stepLoop.simps [of ops cfg agent elapsedAt stepIndex r])
  next
    case True
    show ?thesis
    proof (cases "stepBody ops cfg (agent stepIndex) (elapsedAt stepIndex) r")
      case (Break r')
      with True have eq: "stepLoop ops cfg agent elapsedAt stepIndex r = r'"
        by (simp add: stepLoop.simps [of ops cfg agent elapsedAt stepIndex r])
      from stepBody_Break [OF Break] "1.prems" True eq show ?thesis by auto
    next
      case (Continue r')
      with True have eq: "stepLoop ops cfg agent elapsedAt stepIndex r =
                            stepLoop ops cfg agent elapsedAt (Suc stepIndex) r'"
        by (simp add: stepLoop.simps [of ops cfg agent elapsedAt stepIndex r])
      from "1.IH" [OF True Continue] "1.prems" eq
      have "status (stepLoop ops cfg agent elapsedAt (Suc stepIndex) r') = status r' \<and>
            stepsTaken (stepLoop ops cfg agent elapsedAt (Suc stepIndex) r') =
              stepsTaken r' + nat (maxSteps cfg - int (Suc stepIndex))"
        by simp
      with stepBody_Continue [OF Continue] eq True show ?thesis by auto
    qed
  qed
qed

text \<open>
  Claim C10. The status starts as \<open>error\<close>. If no time check fires (at the top of each
  iteration and after the loop), the environment is not done at the end and the
  invalid-action count stays below the cap, then the loop ran \<open>maxSteps\<close> iterations
  and the summary's status is \<open>error\<close>. (If the status is not \<open>error\<close>, one of the
  three therefore happened.) The statement is for any environment behind the loop; both
  games are instances.
\<close>

theorem exhausted_steps_give_error:
  assumes "\<forall>i. int i < maxSteps cfg \<longrightarrow> elapsedAt i \<le> runTimeoutMs cfg"
    and "elapsedAfter \<le> runTimeoutMs cfg"
    and "\<not> ops_isDone ops (run_env (runSingleEvaluation ops cfg agent elapsedAt elapsedAfter env0))"
    and "int (invalidActions (runSingleEvaluation ops cfg agent elapsedAt elapsedAfter env0))
           < maxInvalidActions cfg"
  shows "status (runSingleEvaluation ops cfg agent elapsedAt elapsedAfter env0) = run_error \<and>
         stepsTaken (runSingleEvaluation ops cfg agent elapsedAt elapsedAfter env0) = nat (maxSteps cfg)"
proof -
  let ?r0 = "\<lparr> run_env = env0, status = run_error, invalidActions = 0, stepsTaken = 0 \<rparr>"
  have run: "runSingleEvaluation ops cfg agent elapsedAt elapsedAfter env0 =
               stepLoop ops cfg agent elapsedAt 0 ?r0"
    using assms(2) by (simp add: runSingleEvaluation_def Let_def)
  from stepLoop_full [OF assms(1), of ops agent 0 ?r0] assms(3,4) run
  show ?thesis by simp
qed

theorem exhausted_steps_give_error_witness:
  "status (runConnections sampleConfig samplePuzzle (puzzle_words samplePuzzle) mixedAgent (\<lambda>i. 0) 0)
     = run_error \<and>
   stepsTaken (runConnections sampleConfig samplePuzzle (puzzle_words samplePuzzle) mixedAgent (\<lambda>i. 0) 0)
     = 8 \<and>
   invalidActions (runConnections sampleConfig samplePuzzle (puzzle_words samplePuzzle) mixedAgent (\<lambda>i. 0) 0)
     = 2"
proof -
  let ?run = "runSingleEvaluation ConnectionsOps sampleConfig mixedAgent (\<lambda>i. 0) 0
                (Connections_reset samplePuzzle (puzzle_words samplePuzzle))"
  have t: "\<forall>i. int i < maxSteps sampleConfig \<longrightarrow> (\<lambda>i. 0) i \<le> runTimeoutMs sampleConfig"
    by (simp add: sampleConfig_def)
  have ta: "(0::int) \<le> runTimeoutMs sampleConfig" by (simp add: sampleConfig_def)
  have nd: "\<not> ops_isDone ConnectionsOps (run_env ?run)" by code_simp
  have ia: "invalidActions ?run = 2" by code_simp
  then have cap: "int (invalidActions ?run) < maxInvalidActions sampleConfig"
    by (simp add: sampleConfig_def)
  from exhausted_steps_give_error [OF t ta nd cap] ia
  show ?thesis by (simp add: runConnections_def sampleConfig_def)
qed


subsection \<open>The invalid-action cap\<close>

lemma stepBody_ParseError:
  "\<not> elapsed > runTimeoutMs cfg \<Longrightarrow> \<not> ops_isDone ops (run_env r) \<Longrightarrow>
     stepBody ops cfg ParseError elapsed r =
       Continue (r\<lparr> invalidActions := invalidActions r + 1, stepsTaken := stepsTaken r + 1 \<rparr>)"
  by (simp add: stepBody_def recordStep_def Let_def)

lemma stepBody_invalid_action_cap:
  "\<not> elapsed > runTimeoutMs cfg \<Longrightarrow> ops_step ops (run_env r) a = (e', Inr invalid_action) \<Longrightarrow>
     maxInvalidActions cfg \<le> int (invalidActions r) + 1 \<Longrightarrow>
     stepBody ops cfg (Parsed a) elapsed r =
       Break (r\<lparr> run_env := e', invalidActions := invalidActions r + 1, status := run_fail \<rparr>)"
  by (simp add: stepBody_def Let_def)

text \<open>
  Claim C8, at an agent whose every response fails to parse, with the cap at 5 and 8
  steps allowed. A response that fails to parse adds one to the count and the loop goes
  on (\<open>stepBody_ParseError\<close>): the cap is compared with the count only after an
  \<open>invalid_action\<close> feedback (\<open>stepBody_invalid_action_cap\<close>). The run takes all 8
  steps, counts 8 invalid actions and ends with status \<open>error\<close>, not \<open>fail\<close>.
\<close>

theorem parse_failures_pass_the_cap:
  "maxInvalidActions sampleConfig = 5 \<and>
   invalidActions
     (runConnections sampleConfig samplePuzzle (puzzle_words samplePuzzle) garbageAgent (\<lambda>i. 0) 0) = 8 \<and>
   stepsTaken
     (runConnections sampleConfig samplePuzzle (puzzle_words samplePuzzle) garbageAgent (\<lambda>i. 0) 0) = 8 \<and>
   status
     (runConnections sampleConfig samplePuzzle (puzzle_words samplePuzzle) garbageAgent (\<lambda>i. 0) 0)
     = run_error"
  by code_simp


subsection \<open>The status of a run whose environment is done\<close>

lemma stepBody_done_status:
  assumes step_inv: "\<And>e a e' res. I e \<Longrightarrow> ops_step ops e a = (e', res) \<Longrightarrow> I e'"
    and quiet: "\<And>e a e' res. I e \<Longrightarrow> \<not> ops_isDone ops e \<Longrightarrow> ops_step ops e a = (e', res) \<Longrightarrow>
                  res = Inr invalid_action \<or> (\<exists>err. res = Inl err) \<Longrightarrow> \<not> ops_isDone ops e'"
    and inv: "I (run_env r)" and running: "\<not> ops_isDone ops (run_env r)"
  shows "(stepBody ops cfg reply elapsed r = Break r' \<longrightarrow>
            I (run_env r') \<and>
            (ops_isDone ops (run_env r') \<longrightarrow>
               status r' = mapEnvStatus (ops_getStatus ops (run_env r')) (status r))) \<and>
         (stepBody ops cfg reply elapsed r = Continue r' \<longrightarrow>
            I (run_env r') \<and> \<not> ops_isDone ops (run_env r') \<and> status r' = status r)"
proof (cases "elapsed > runTimeoutMs cfg")
  case True
  with inv running show ?thesis by (auto simp: stepBody_def)
next
  case noTimeout: False
  show ?thesis
  proof (cases reply)
    case ApiError
    with noTimeout inv running show ?thesis
      by (auto simp: stepBody_def recordStep_def Let_def)
  next
    case ParseError
    with noTimeout inv running show ?thesis
      by (auto simp: stepBody_def recordStep_def Let_def)
  next
    case (Parsed action)
    obtain e' res where st: "ops_step ops (run_env r) action = (e', res)"
      by (cases "ops_step ops (run_env r) action")
    from step_inv [OF inv st] have inv': "I e'" .
    show ?thesis
    proof (cases res)
      case (Inl err)
      with quiet [OF inv running st] have "\<not> ops_isDone ops e'" by blast
      with Parsed noTimeout st Inl inv' show ?thesis
        by (auto simp: stepBody_def recordStep_def Let_def)
    next
      case (Inr result)
      show ?thesis
      proof (cases "result = invalid_action")
        case True
        with Inr quiet [OF inv running st] have "\<not> ops_isDone ops e'" by blast
        with Parsed noTimeout st Inr True inv' show ?thesis
          by (auto simp: stepBody_def recordStep_def Let_def)
      next
        case False
        with Parsed noTimeout st Inr inv' show ?thesis
          by (auto simp: stepBody_def recordStep_def Let_def)
      qed
    qed
  qed
qed

lemma stepLoop_done_status:
  assumes "\<And>e a e' res. I e \<Longrightarrow> ops_step ops e a = (e', res) \<Longrightarrow> I e'"
    and "\<And>e a e' res. I e \<Longrightarrow> \<not> ops_isDone ops e \<Longrightarrow> ops_step ops e a = (e', res) \<Longrightarrow>
                  res = Inr invalid_action \<or> (\<exists>err. res = Inl err) \<Longrightarrow> \<not> ops_isDone ops e'"
    and "I (run_env r)" and "\<not> ops_isDone ops (run_env r)"
  shows "I (run_env (stepLoop ops cfg agent elapsedAt stepIndex r)) \<and>
         (ops_isDone ops (run_env (stepLoop ops cfg agent elapsedAt stepIndex r)) \<longrightarrow>
            status (stepLoop ops cfg agent elapsedAt stepIndex r) =
              mapEnvStatus (ops_getStatus ops (run_env (stepLoop ops cfg agent elapsedAt stepIndex r)))
                (status r))"
  using assms
proof (induction ops cfg agent elapsedAt stepIndex r rule: stepLoop.induct)
  case (1 ops cfg agent elapsedAt stepIndex r)
  show ?case
  proof (cases "int stepIndex < maxSteps cfg")
    case False
    with "1.prems" show ?thesis
      by (simp add: stepLoop.simps [of ops cfg agent elapsedAt stepIndex r])
  next
    case True
    have body: "(stepBody ops cfg (agent stepIndex) (elapsedAt stepIndex) r = Break r' \<longrightarrow>
            I (run_env r') \<and>
            (ops_isDone ops (run_env r') \<longrightarrow>
               status r' = mapEnvStatus (ops_getStatus ops (run_env r')) (status r))) \<and>
         (stepBody ops cfg (agent stepIndex) (elapsedAt stepIndex) r = Continue r' \<longrightarrow>
            I (run_env r') \<and> \<not> ops_isDone ops (run_env r') \<and> status r' = status r)" for r'
      by (rule stepBody_done_status [where I = I and ops = ops and r = r,
            OF "1.prems"(1) "1.prems"(2) "1.prems"(3) "1.prems"(4)])
    show ?thesis
    proof (cases "stepBody ops cfg (agent stepIndex) (elapsedAt stepIndex) r")
      case (Break r')
      with True have eq: "stepLoop ops cfg agent elapsedAt stepIndex r = r'"
        by (simp add: stepLoop.simps [of ops cfg agent elapsedAt stepIndex r])
      from body [of r'] Break eq show ?thesis by simp
    next
      case (Continue r')
      with True have eq: "stepLoop ops cfg agent elapsedAt stepIndex r =
                            stepLoop ops cfg agent elapsedAt (Suc stepIndex) r'"
        by (simp add: stepLoop.simps [of ops cfg agent elapsedAt stepIndex r])
      from body [of r'] Continue have r': "I (run_env r')" "\<not> ops_isDone ops (run_env r')"
        "status r' = status r" by simp_all
      from "1.IH" [OF True Continue "1.prems"(1) "1.prems"(2) r'(1) r'(2)] eq r'(3)
      show ?thesis by simp
    qed
  qed
qed


lemma handleSubmitGroup_done_status:
  "\<not> c_done s \<Longrightarrow> c_status s = in_progress \<Longrightarrow>
     c_done (fst (handleSubmitGroup s ws)) = (c_status (fst (handleSubmitGroup s ws)) \<noteq> in_progress)"
  by (auto simp: handleSubmitGroup_def invalidFeedback_def Let_def split: option.splits if_splits)

lemma Connections_step_inv:
  assumes inv: "c_done s = (c_status s \<noteq> in_progress)"
    and st: "Connections_step (Some s) a = (env', r)"
  shows "\<exists>s'. env' = Some s' \<and> c_done s' = (c_status s' \<noteq> in_progress) \<and>
           (\<not> c_done s \<longrightarrow> (\<exists>fb. r = Inr fb \<and> (cf_result fb = invalid_action \<longrightarrow> \<not> c_done s')))"
proof (cases "c_done s")
  case True
  with st inv show ?thesis by (auto simp: Connections_step_finished)
next
  case False
  with inv have ip: "c_status s = in_progress" by simp
  from Connections_step_running [OF False, of a] st obtain s1 fb where
    hf: "(s1, fb) = (case a of give_up \<Rightarrow> Connections_handleGiveUp s
                     | submit_group ws \<Rightarrow> handleSubmitGroup s ws
                     | unknown_action \<Rightarrow> (s, invalidFeedback MsgUnknownAction))"
    and env': "env' = Some (s1\<lparr> c_history := c_history s1 @
                         [\<lparr> ch_stepIndex = length (c_history s1), ch_action = a, ch_feedback = fb \<rparr>],
                       c_stateVersion := c_stateVersion s1 + 1 \<rparr>)"
    and r: "r = Inr fb"
    by auto
  have "c_done s1 = (c_status s1 \<noteq> in_progress) \<and> (cf_result fb = invalid_action \<longrightarrow> \<not> c_done s1)"
  proof (cases a)
    case (submit_group ws)
    with hf have s1: "s1 = fst (handleSubmitGroup s ws)" and fb: "fb = snd (handleSubmitGroup s ws)"
      by (simp_all add: prod_eq_iff)
    from handleSubmitGroup_done_status [OF False ip, of ws] handleSubmitGroup_invalid_state [of s ws]
      s1 fb False
    show ?thesis by auto
  next
    case give_up
    with hf show ?thesis by (auto simp: Connections_handleGiveUp_def)
  next
    case unknown_action
    with hf inv False show ?thesis by (auto simp: invalidFeedback_def)
  qed
  with env' r False show ?thesis by auto
qed

lemma ConnectionsOps_step_inv:
  "conn_inv e \<Longrightarrow> ops_step ConnectionsOps e a = (e', res) \<Longrightarrow> conn_inv e'"
proof -
  assume inv: "conn_inv e" and st: "ops_step ConnectionsOps e a = (e', res)"
  from inv obtain s where s: "e = Some s" "c_done s = (c_status s \<noteq> in_progress)"
    by (auto simp: conn_inv_def)
  obtain env1 r where cs: "Connections_step (Some s) a = (env1, r)"
    by (cases "Connections_step (Some s) a")
  with st s(1) have "e' = env1" by (auto simp: ConnectionsOps_def split: sum.splits)
  with Connections_step_inv [OF s(2) cs] show "conn_inv e'" by (auto simp: conn_inv_def)
qed

lemma ConnectionsOps_quiet:
  assumes inv: "conn_inv e" and run: "\<not> ops_isDone ConnectionsOps e"
    and st: "ops_step ConnectionsOps e a = (e', res)"
    and res: "res = Inr invalid_action \<or> (\<exists>err. res = Inl err)"
  shows "\<not> ops_isDone ConnectionsOps e'"
proof -
  from inv obtain s where s: "e = Some s" "c_done s = (c_status s \<noteq> in_progress)"
    by (auto simp: conn_inv_def)
  from run s(1) have nd: "\<not> c_done s" by (simp add: ConnectionsOps_def Connections_isDone_def)
  obtain env1 r where cs: "Connections_step (Some s) a = (env1, r)"
    by (cases "Connections_step (Some s) a")
  from Connections_step_inv [OF s(2) cs] nd obtain s' fb where
    s': "env1 = Some s'" "r = Inr fb" "cf_result fb = invalid_action \<longrightarrow> \<not> c_done s'"
    by auto
  from st s(1) cs s'(2) have "e' = env1" "res = Inr (cf_result fb)"
    by (auto simp: ConnectionsOps_def)
  with res s' show ?thesis by (auto simp: ConnectionsOps_def Connections_isDone_def)
qed


lemma handleFillEntry_done:
  "x_done (fst (handleFillEntry s d n answer)) = x_done s \<and>
   x_status (fst (handleFillEntry s d n answer)) = x_status s"
proof (cases "xf_result (snd (handleFillEntry s d n answer)) = invalid_action")
  case True
  then show ?thesis by (simp add: handleFillEntry_invalid_state)
next
  case False
  from handleFillEntry_filled [OF False] show ?thesis by auto
qed

lemma handleClearEntry_done:
  "x_done (fst (handleClearEntry s d n)) = x_done s \<and>
   x_status (fst (handleClearEntry s d n)) = x_status s \<and>
   xf_result (snd (handleClearEntry s d n)) \<in> {cleared, invalid_action}"
  by (auto simp: handleClearEntry_def xInvalid_def Let_def split: option.splits prod.splits)

lemma handleCheckEntry_done:
  "x_done (fst (handleCheckEntry s d n)) = x_done s \<and>
   x_status (fst (handleCheckEntry s d n)) = x_status s"
proof (cases "xf_result (snd (handleCheckEntry s d n)) = invalid_action")
  case True
  then show ?thesis by (simp add: handleCheckEntry_invalid_state)
next
  case False
  from handleCheckEntry_checked [OF False] show ?thesis by auto
qed

lemma handleSubmitPuzzle_done:
  "x_done (fst (handleSubmitPuzzle s)) \<and> x_status (fst (handleSubmitPuzzle s)) \<noteq> in_progress \<and>
   xf_result (snd (handleSubmitPuzzle s)) = submitted"
  by (simp add: handleSubmitPuzzle_def Let_def)

lemma Crossword_step_running:
  assumes "\<not> x_done s"
  shows "\<exists>s1 fb. (s1, fb) =
            (case a of
               fill_entry direction number answer \<Rightarrow> handleFillEntry s direction number answer
             | clear_entry direction number \<Rightarrow> handleClearEntry s direction number
             | check_entry direction number \<Rightarrow> handleCheckEntry s direction number
             | submit_puzzle \<Rightarrow> handleSubmitPuzzle s
             | xw_give_up \<Rightarrow> Crossword_handleGiveUp s
             | xw_unknown_action \<Rightarrow> (s, xInvalid XMsgUnknownAction)) \<and>
          Crossword_step (Some s) a =
            (Some (s1\<lparr> x_history := x_history s1 @
                         [\<lparr> xh_stepIndex = length (x_history s1), xh_action = a, xh_feedback = fb \<rparr>],
                       x_stateVersion := x_stateVersion s1 + 1 \<rparr>), Inr fb)"
  using assms by (simp add: Crossword_step_def Let_def split: prod.splits)

lemma Crossword_step_inv:
  assumes inv: "x_done s = (x_status s \<noteq> in_progress)"
    and st: "Crossword_step (Some s) a = (env', r)"
  shows "\<exists>s'. env' = Some s' \<and> x_done s' = (x_status s' \<noteq> in_progress) \<and>
           (\<not> x_done s \<longrightarrow> (\<exists>fb. r = Inr fb \<and> (xf_result fb = invalid_action \<longrightarrow> \<not> x_done s')))"
proof (cases "x_done s")
  case True
  with st inv show ?thesis by (auto simp: Crossword_step_finished)
next
  case False
  from Crossword_step_running [OF False, of a] st obtain s1 fb where
    hf: "(s1, fb) =
            (case a of
               fill_entry direction number answer \<Rightarrow> handleFillEntry s direction number answer
             | clear_entry direction number \<Rightarrow> handleClearEntry s direction number
             | check_entry direction number \<Rightarrow> handleCheckEntry s direction number
             | submit_puzzle \<Rightarrow> handleSubmitPuzzle s
             | xw_give_up \<Rightarrow> Crossword_handleGiveUp s
             | xw_unknown_action \<Rightarrow> (s, xInvalid XMsgUnknownAction))"
    and env': "env' = Some (s1\<lparr> x_history := x_history s1 @
                         [\<lparr> xh_stepIndex = length (x_history s1), xh_action = a, xh_feedback = fb \<rparr>],
                       x_stateVersion := x_stateVersion s1 + 1 \<rparr>)"
    and r: "r = Inr fb"
    by auto
  have "x_done s1 = (x_status s1 \<noteq> in_progress) \<and> (xf_result fb = invalid_action \<longrightarrow> \<not> x_done s1)"
  proof (cases a)
    case (fill_entry d n answer)
    with hf have "s1 = fst (handleFillEntry s d n answer)" by (simp add: prod_eq_iff)
    with handleFillEntry_done [of s d n answer] inv False show ?thesis by simp
  next
    case (clear_entry d n)
    with hf have "s1 = fst (handleClearEntry s d n)" by (simp add: prod_eq_iff)
    with handleClearEntry_done [of s d n] inv False show ?thesis by simp
  next
    case (check_entry d n)
    with hf have "s1 = fst (handleCheckEntry s d n)" by (simp add: prod_eq_iff)
    with handleCheckEntry_done [of s d n] inv False show ?thesis by simp
  next
    case submit_puzzle
    with hf have "s1 = fst (handleSubmitPuzzle s)" "fb = snd (handleSubmitPuzzle s)"
      by (simp_all add: prod_eq_iff)
    with handleSubmitPuzzle_done [of s] show ?thesis by simp
  next
    case xw_give_up
    with hf show ?thesis by (auto simp: Crossword_handleGiveUp_def)
  next
    case xw_unknown_action
    with hf inv False show ?thesis by (auto simp: xInvalid_def)
  qed
  with env' r False show ?thesis by auto
qed

lemma CrosswordOps_step_inv:
  "cross_inv e \<Longrightarrow> ops_step CrosswordOps e a = (e', res) \<Longrightarrow> cross_inv e'"
proof -
  assume inv: "cross_inv e" and st: "ops_step CrosswordOps e a = (e', res)"
  from inv obtain s where s: "e = Some s" "x_done s = (x_status s \<noteq> in_progress)"
    by (auto simp: cross_inv_def)
  obtain env1 r where cs: "Crossword_step (Some s) a = (env1, r)"
    by (cases "Crossword_step (Some s) a")
  with st s(1) have "e' = env1" by (auto simp: CrosswordOps_def split: sum.splits)
  with Crossword_step_inv [OF s(2) cs] show "cross_inv e'" by (auto simp: cross_inv_def)
qed

lemma CrosswordOps_quiet:
  assumes inv: "cross_inv e" and run: "\<not> ops_isDone CrosswordOps e"
    and st: "ops_step CrosswordOps e a = (e', res)"
    and res: "res = Inr invalid_action \<or> (\<exists>err. res = Inl err)"
  shows "\<not> ops_isDone CrosswordOps e'"
proof -
  from inv obtain s where s: "e = Some s" "x_done s = (x_status s \<noteq> in_progress)"
    by (auto simp: cross_inv_def)
  from run s(1) have nd: "\<not> x_done s" by (simp add: CrosswordOps_def Crossword_isDone_def)
  obtain env1 r where cs: "Crossword_step (Some s) a = (env1, r)"
    by (cases "Crossword_step (Some s) a")
  from Crossword_step_inv [OF s(2) cs] nd obtain s' fb where
    s': "env1 = Some s'" "r = Inr fb" "xf_result fb = invalid_action \<longrightarrow> \<not> x_done s'"
    by auto
  from st s(1) cs s'(2) have "e' = env1" "res = Inr (xf_result fb)"
    by (auto simp: CrosswordOps_def)
  with res s' show ?thesis by (auto simp: CrosswordOps_def Crossword_isDone_def)
qed

lemma mapEnvStatus_cases:
  "st \<noteq> in_progress \<Longrightarrow>
     mapEnvStatus st cur \<noteq> run_error \<and>
     (st \<noteq> gave_up \<longrightarrow> RunStatus_name (mapEnvStatus st cur) = Status_name st) \<and>
     (st = gave_up \<longrightarrow> mapEnvStatus st cur = run_fail)"
  by (cases st) (simp_all add: mapEnvStatus_def)

lemma runSingleEvaluation_done_status:
  assumes "\<And>e a e' res. I e \<Longrightarrow> ops_step ops e a = (e', res) \<Longrightarrow> I e'"
    and "\<And>e a e' res. I e \<Longrightarrow> \<not> ops_isDone ops e \<Longrightarrow> ops_step ops e a = (e', res) \<Longrightarrow>
                  res = Inr invalid_action \<or> (\<exists>err. res = Inl err) \<Longrightarrow> \<not> ops_isDone ops e'"
    and terminal: "\<And>e. I e \<Longrightarrow> ops_isDone ops e \<Longrightarrow> ops_getStatus ops e \<noteq> in_progress"
    and "I env0" and "\<not> ops_isDone ops env0"
    and fin: "ops_isDone ops (run_env (runSingleEvaluation ops cfg agent elapsedAt elapsedAfter env0))"
  shows "ops_getStatus ops (run_env (runSingleEvaluation ops cfg agent elapsedAt elapsedAfter env0))
           \<noteq> in_progress \<and>
         status (runSingleEvaluation ops cfg agent elapsedAt elapsedAfter env0) =
           mapEnvStatus
             (ops_getStatus ops (run_env (runSingleEvaluation ops cfg agent elapsedAt elapsedAfter env0)))
             run_error"
proof -
  let ?init = "\<lparr> run_env = env0, status = run_error, invalidActions = 0, stepsTaken = 0 \<rparr>"
  let ?r = "stepLoop ops cfg agent elapsedAt 0 ?init"
  have env: "run_env (runSingleEvaluation ops cfg agent elapsedAt elapsedAfter env0) = run_env ?r"
    by (simp add: runSingleEvaluation_def Let_def)
  have loop: "I (run_env ?r) \<and>
         (ops_isDone ops (run_env ?r) \<longrightarrow>
            status ?r = mapEnvStatus (ops_getStatus ops (run_env ?r)) (status ?init))"
    by (rule stepLoop_done_status [where I = I and ops = ops and r = ?init, OF assms(1) assms(2)])
       (use assms(4,5) in simp_all)
  from fin env have d: "ops_isDone ops (run_env ?r)" by simp
  with loop terminal have ns: "ops_getStatus ops (run_env ?r) \<noteq> in_progress" by blast
  from loop d have st: "status ?r = mapEnvStatus (ops_getStatus ops (run_env ?r)) run_error" by simp
  with mapEnvStatus_cases [OF ns, of run_error] have "status ?r \<noteq> run_error" by simp
  then have "runSingleEvaluation ops cfg agent elapsedAt elapsedAfter env0 = ?r"
    by (simp add: runSingleEvaluation_def Let_def)
  with ns st show ?thesis by simp
qed

text \<open>
  Claim C2, as the code has it. When a run ends with its environment done, the
  environment status is not \<open>in_progress\<close>, and the summary's status carries the same
  name for \<open>success\<close>, \<open>success_clean\<close>, \<open>success_with_reveals\<close> and \<open>fail\<close>, while
  \<open>gave_up\<close> becomes \<open>fail\<close>: the run status has no \<open>gave_up\<close>. This holds for the runs
  of both games, started from \<^verbatim>\<open>reset\<close>.
\<close>

theorem done_status_mapping:
  "(Connections_isDone (run_env (runConnections cfg p sh agent elapsedAt elapsedAfter)) \<longrightarrow>
      Connections_getStatus (run_env (runConnections cfg p sh agent elapsedAt elapsedAfter)) \<noteq> in_progress \<and>
      (Connections_getStatus (run_env (runConnections cfg p sh agent elapsedAt elapsedAfter)) \<noteq> gave_up \<longrightarrow>
         RunStatus_name (status (runConnections cfg p sh agent elapsedAt elapsedAfter)) =
         Status_name (Connections_getStatus (run_env (runConnections cfg p sh agent elapsedAt elapsedAfter)))) \<and>
      (Connections_getStatus (run_env (runConnections cfg p sh agent elapsedAt elapsedAfter)) = gave_up \<longrightarrow>
         status (runConnections cfg p sh agent elapsedAt elapsedAfter) = run_fail)) \<and>
   (Crossword_isDone (run_env (runCrossword cfg q xagent elapsedAt elapsedAfter)) \<longrightarrow>
      Crossword_getStatus (run_env (runCrossword cfg q xagent elapsedAt elapsedAfter)) \<noteq> in_progress \<and>
      (Crossword_getStatus (run_env (runCrossword cfg q xagent elapsedAt elapsedAfter)) \<noteq> gave_up \<longrightarrow>
         RunStatus_name (status (runCrossword cfg q xagent elapsedAt elapsedAfter)) =
         Status_name (Crossword_getStatus (run_env (runCrossword cfg q xagent elapsedAt elapsedAfter)))) \<and>
      (Crossword_getStatus (run_env (runCrossword cfg q xagent elapsedAt elapsedAfter)) = gave_up \<longrightarrow>
         status (runCrossword cfg q xagent elapsedAt elapsedAfter) = run_fail))"
proof -
  let ?rc = "runSingleEvaluation ConnectionsOps cfg agent elapsedAt elapsedAfter (Connections_reset p sh)"
  let ?rx = "runSingleEvaluation CrosswordOps cfg xagent elapsedAt elapsedAfter
               (Crossword_reset q (crosswordRules cfg))"
  have c0: "conn_inv (Connections_reset p sh)" "\<not> ops_isDone ConnectionsOps (Connections_reset p sh)"
    by (simp_all add: conn_inv_def Connections_reset_def ConnectionsOps_def Connections_isDone_def)
  have x0: "cross_inv (Crossword_reset q (crosswordRules cfg))"
    "\<not> ops_isDone CrosswordOps (Crossword_reset q (crosswordRules cfg))"
    by (simp_all add: cross_inv_def Crossword_reset_def CrosswordOps_def Crossword_isDone_def)
  have cterm: "ops_getStatus ConnectionsOps e \<noteq> in_progress"
    if "conn_inv e" "ops_isDone ConnectionsOps e" for e
    using that by (auto simp: conn_inv_def ConnectionsOps_def Connections_isDone_def Connections_getStatus_def)
  have xterm: "ops_getStatus CrosswordOps e \<noteq> in_progress"
    if "cross_inv e" "ops_isDone CrosswordOps e" for e
    using that by (auto simp: cross_inv_def CrosswordOps_def Crossword_isDone_def Crossword_getStatus_def)
  have C: "ops_getStatus ConnectionsOps (run_env ?rc) \<noteq> in_progress \<and>
           status ?rc = mapEnvStatus (ops_getStatus ConnectionsOps (run_env ?rc)) run_error"
    if "ops_isDone ConnectionsOps (run_env ?rc)"
    by (rule runSingleEvaluation_done_status [where I = conn_inv and ops = ConnectionsOps,
          OF ConnectionsOps_step_inv ConnectionsOps_quiet cterm c0 that])
  have X: "ops_getStatus CrosswordOps (run_env ?rx) \<noteq> in_progress \<and>
           status ?rx = mapEnvStatus (ops_getStatus CrosswordOps (run_env ?rx)) run_error"
    if "ops_isDone CrosswordOps (run_env ?rx)"
    by (rule runSingleEvaluation_done_status [where I = cross_inv and ops = CrosswordOps,
          OF CrosswordOps_step_inv CrosswordOps_quiet xterm x0 that])
  have opsC: "ops_isDone ConnectionsOps = Connections_isDone"
    "ops_getStatus ConnectionsOps = Connections_getStatus"
    by (simp_all add: ConnectionsOps_def)
  have opsX: "ops_isDone CrosswordOps = Crossword_isDone"
    "ops_getStatus CrosswordOps = Crossword_getStatus"
    by (simp_all add: CrosswordOps_def)
  from C X show ?thesis
    unfolding runConnections_def runCrossword_def opsC opsX
    using mapEnvStatus_cases by metis
qed

theorem done_status_mapping_witness:
  "Connections_isDone
     (run_env (runConnections sampleConfig samplePuzzle (puzzle_words samplePuzzle) giveUpAgent (\<lambda>i. 0) 0)) \<and>
   status (runConnections sampleConfig samplePuzzle (puzzle_words samplePuzzle) giveUpAgent (\<lambda>i. 0) 0)
     = run_fail \<and>
   RunStatus_name
     (status (runConnections sampleConfig samplePuzzle (puzzle_words samplePuzzle) solvingAgent (\<lambda>i. 0) 0))
     = ''success'' \<and>
   RunStatus_name (status (runCrossword sampleConfig sampleCrossword gridSolvingAgent (\<lambda>i. 0) 0))
     = ''success_clean''"
proof -
  let ?g = "runConnections sampleConfig samplePuzzle (puzzle_words samplePuzzle) giveUpAgent (\<lambda>i. 0) 0"
  let ?s = "runConnections sampleConfig samplePuzzle (puzzle_words samplePuzzle) solvingAgent (\<lambda>i. 0) 0"
  let ?x = "runCrossword sampleConfig sampleCrossword gridSolvingAgent (\<lambda>i. 0) 0"
  have g: "Connections_isDone (run_env ?g) \<and> Connections_getStatus (run_env ?g) = gave_up"
    by code_simp
  have s: "Connections_isDone (run_env ?s) \<and> Connections_getStatus (run_env ?s) = success"
    by code_simp
  have x: "Crossword_isDone (run_env ?x) \<and> Crossword_getStatus (run_env ?x) = success_clean"
    by code_simp
  from done_status_mapping [of sampleConfig samplePuzzle "puzzle_words samplePuzzle" giveUpAgent
      "\<lambda>i. 0" 0 sampleCrossword gridSolvingAgent] g x
  have a: "status ?g = run_fail" and c: "RunStatus_name (status ?x) = ''success_clean''"
    by simp_all
  from done_status_mapping [of sampleConfig samplePuzzle "puzzle_words samplePuzzle" solvingAgent
      "\<lambda>i. 0" 0 sampleCrossword gridSolvingAgent] s
  have b: "RunStatus_name (status ?s) = ''success''" by simp
  from g a b c show ?thesis by simp
qed

text \<open>
  Claim C2 as it is worded (\<open>gave_up\<close> passes through) fails at a run that ends by
  \<^verbatim>\<open>give_up\<close>: the environment status is \<open>gave_up\<close>, the run status is \<open>fail\<close>.
\<close>

theorem gave_up_run_counterexample:
  "Connections_getStatus
     (run_env (runConnections sampleConfig samplePuzzle (puzzle_words samplePuzzle) giveUpAgent (\<lambda>i. 0) 0))
     = gave_up \<and>
   RunStatus_name
     (status (runConnections sampleConfig samplePuzzle (puzzle_words samplePuzzle) giveUpAgent (\<lambda>i. 0) 0))
     = ''fail'' \<and>
   RunStatus_name
     (status (runConnections sampleConfig samplePuzzle (puzzle_words samplePuzzle) giveUpAgent (\<lambda>i. 0) 0))
     \<noteq> Status_name gave_up"
  by code_simp

end
